theory Spec2Isabelle
  imports Main "HOL-Library.Word" "HOL-Library.List_Lexorder"
begin

section \<open>Bytes, fixed-width integers and the reader\<close>

text \<open>
  A Go \<open>[]byte\<close> is a list of 8-bit words; \<open>[32]byte\<close> (payment hash, preimage) is a
  256-bit word, written to and read from storage as its 32 bytes, most significant first.
  \<open>uint32\<close>, \<open>uint64\<close> and \<open>lnwire.MilliSatoshi\<close> (a \<open>uint64\<close>) are words of that
  width.  A \<open>nil\<close> slice and an empty one are the same list.

  Modelled from the spec: \<open>byteOrder\<close>, declared outside the two source files, is
  big-endian (\<open>binary.BigEndian\<close>).
\<close>

type_synonym byte = "8 word"
type_synonym bytes = "byte list"

text \<open>The \<open>n\<close> low-order bytes of a number, most significant byte first
  (\<open>binary.BigEndian.PutUintN\<close>), and least significant byte first
  (\<open>binary.LittleEndian.PutUintN\<close>).\<close>

fun be_bytes :: "nat \<Rightarrow> nat \<Rightarrow> bytes" where
  "be_bytes 0 x = []"
| "be_bytes (Suc n) x = be_bytes n (x div 256) @ [of_nat (x mod 256)]"

fun le_bytes :: "nat \<Rightarrow> nat \<Rightarrow> bytes" where
  "le_bytes 0 x = []"
| "le_bytes (Suc n) x = of_nat (x mod 256) # le_bytes n (x div 256)"

definition be_nat :: "bytes \<Rightarrow> nat" where
  "be_nat bs = foldl (\<lambda>a b. a * 256 + unat b) 0 bs"

definition le_nat :: "bytes \<Rightarrow> nat" where
  "le_nat bs = foldr (\<lambda>b a. unat b + 256 * a) bs 0"

definition PutUint32 :: "32 word \<Rightarrow> bytes" where
  "PutUint32 v = be_bytes 4 (unat v)"

definition Uint32 :: "bytes \<Rightarrow> 32 word" where
  "Uint32 b = of_nat (be_nat b)"

definition PutUint64 :: "64 word \<Rightarrow> bytes" where
  "PutUint64 v = be_bytes 8 (unat v)"

definition Uint64 :: "bytes \<Rightarrow> 64 word" where
  "Uint64 b = of_nat (be_nat b)"

definition bytes32 :: "256 word \<Rightarrow> bytes" where
  "bytes32 h = be_bytes 32 (unat h)"

definition of_bytes32 :: "bytes \<Rightarrow> 256 word" where
  "of_bytes32 b = of_nat (be_nat b)"

text \<open>
  The errors: the three sentinels the source names (\<open>ErrDuplicateInvoice\<close>,
  \<open>ErrInvoiceNotFound\<close>, \<open>ErrNoInvoicesCreated\<close>), one constructor for each
  \<open>fmt.Errorf\<close> of \<open>validateInvoice\<close>, \<open>getPaymentHash\<close> and \<open>addInvoicePreimage\<close>,
  the errors of the readers and of the timestamp encoding, and the panic of an index out
  of range.
\<close>

datatype error =
    ErrDuplicateInvoice
  | ErrInvoiceNotFound
  | ErrNoInvoicesCreated
  | ErrMemoTooLong
  | ErrReceiptTooLong
  | ErrPaymentRequestTooLong
  | ErrMissingPaymentHash
  | ErrMissingPreimage
  | ErrNotExternalPreimage
  | ErrPreimageAlreadySet
  | ErrEOF
  | ErrUnexpectedEOF
  | ErrNonCanonicalVarInt
  | ErrVarBytesTooLarge
  | ErrTimeZoneOffset
  | ErrTimeNoData
  | ErrTimeVersion
  | ErrTimeLength
  | PanicIndexOutOfRange

text \<open>
  An \<open>io.Reader\<close> over a byte slice is the list of bytes not yet consumed.  A read returns
  the value and the remaining input, or the error of the first failing read.
\<close>

type_synonym 'a reader = "bytes \<Rightarrow> error + ('a \<times> bytes)"

definition andThen :: "'a reader \<Rightarrow> ('a \<Rightarrow> 'b reader) \<Rightarrow> 'b reader" where
  "andThen m f r = (case m r of Inl e \<Rightarrow> Inl e | Inr (a, r') \<Rightarrow> f a r')"

definition ret :: "'a \<Rightarrow> 'a reader" where
  "ret a r = Inr (a, r)"

text \<open>\<open>io.ReadFull\<close> into a buffer of \<open>n\<close> bytes: \<open>io.EOF\<close> when nothing could be read,
  \<open>io.ErrUnexpectedEOF\<close> when the input ends early.\<close>

definition ReadFull :: "nat \<Rightarrow> bytes reader" where
  "ReadFull n r =
     (if n \<le> length r then Inr (take n r, drop n r)
      else if r = [] then Inl ErrEOF else Inl ErrUnexpectedEOF)"

text \<open>\<open>binary.Read\<close> of a \<open>uint64\<close> and of a \<open>bool\<close> (any non-zero byte is \<open>true\<close>);
  \<open>binary.Write\<close> of a \<open>bool\<close> writes 1 or 0.\<close>

definition read_uint64 :: "(64 word) reader" where
  "read_uint64 = andThen (ReadFull 8) (\<lambda>b. ret (Uint64 b))"

definition read_bool :: "bool reader" where
  "read_bool = andThen (ReadFull 1) (\<lambda>b. ret (hd b \<noteq> 0))"

definition write_bool :: "bool \<Rightarrow> bytes" where
  "write_bool b = [if b then 1 else 0]"

definition read_bytes32 :: "(256 word) reader" where
  "read_bytes32 = andThen (ReadFull 32) (\<lambda>b. ret (of_bytes32 b))"

section \<open>Variable-length byte strings (btcd \<open>wire\<close>)\<close>

text \<open>
  Modelled from the spec: the length-prefix scheme of the codec (\<open>varlen\<close>) is
  \<open>wire.WriteVarInt\<close>, \<open>wire.ReadVarInt\<close>, \<open>wire.WriteVarBytes\<close> and
  \<open>wire.ReadVarBytes\<close> of the btcd library, which is not part of this repository: a
  length prefix of 1, 3, 5 or 9 bytes (little-endian after the discriminant), refused on
  reading when it is not the shortest encoding, followed by the bytes; a length above the
  ceiling given to the reader is refused.
\<close>

definition WriteVarInt :: "nat \<Rightarrow> bytes" where
  "WriteVarInt val =
     (if val < 0xfd then [of_nat val]
      else if val \<le> 0xffff then 0xfd # le_bytes 2 val
      else if val \<le> 0xffffffff then 0xfe # le_bytes 4 val
      else 0xff # le_bytes 8 val)"

definition read_le :: "nat \<Rightarrow> nat \<Rightarrow> nat reader" where
  "read_le n minv =
     andThen (ReadFull n) (\<lambda>b r.
       if le_nat b < minv then Inl ErrNonCanonicalVarInt else Inr (le_nat b, r))"

definition ReadVarInt :: "nat reader" where
  "ReadVarInt =
     andThen (ReadFull 1) (\<lambda>d.
       if hd d = 0xff then read_le 8 0x100000000
       else if hd d = 0xfe then read_le 4 0x10000
       else if hd d = 0xfd then read_le 2 0xfd
       else ret (unat (hd d)))"

definition WriteVarBytes :: "bytes \<Rightarrow> bytes" where
  "WriteVarBytes b = WriteVarInt (length b) @ b"

definition ReadVarBytes :: "nat \<Rightarrow> bytes reader" where
  "ReadVarBytes maxAllowed =
     andThen ReadVarInt (\<lambda>count r.
       if count > maxAllowed then Inl ErrVarBytesTooLarge else ReadFull count r)"

section \<open>Timestamps\<close>

text \<open>
  Modelled from the spec: \<open>time.Time\<close> and its \<open>MarshalBinary\<close>/\<open>UnmarshalBinary\<close> belong
  to the Go standard library, not to this repository; the spec asks for a self-delimited,
  round-trippable binary form of 12 to 15 bytes.  The model is the wall-clock content of a
  \<open>time.Time\<close> (seconds, nanoseconds, zone) and the library's 15-byte version-1 layout:
  a version byte, 8 bytes of seconds, 4 bytes of nanoseconds and the zone offset in
  minutes as a signed 16-bit number, \<open>-1\<close> standing for UTC.  A zone whose offset is not
  a whole number of minutes, does not fit 16 bits, or is exactly minus one minute cannot
  be encoded.  The monotonic clock reading of \<open>time.Now()\<close> is not part of the model
  (the encoding drops it).
\<close>

datatype Location = UTC | FixedZone int

record Time =
  t_sec :: "64 word"
  t_nsec :: "32 word"
  t_loc :: Location

definition zeroTime :: Time where
  "zeroTime = \<lparr>t_sec = 0, t_nsec = 0, t_loc = UTC\<rparr>"

definition zoneOffsetMin :: "Location \<Rightarrow> error + 16 word" where
  "zoneOffsetMin l =
     (case l of
        UTC \<Rightarrow> Inr (- 1)
      | FixedZone offset \<Rightarrow>
          if offset mod 60 \<noteq> 0 then Inl ErrTimeZoneOffset
          else if offset div 60 < - 32768 \<or> offset div 60 = - 1 \<or> offset div 60 > 32767
          then Inl ErrTimeZoneOffset
          else Inr (of_int (offset div 60)))"

definition MarshalBinary :: "Time \<Rightarrow> error + bytes" where
  "MarshalBinary t =
     (case zoneOffsetMin (t_loc t) of
        Inl e \<Rightarrow> Inl e
      | Inr offsetMin \<Rightarrow>
          Inr (1 # be_bytes 8 (unat (t_sec t)) @ be_bytes 4 (unat (t_nsec t))
                 @ be_bytes 2 (unat offsetMin)))"

definition UnmarshalBinary :: "bytes \<Rightarrow> error + Time" where
  "UnmarshalBinary buf =
     (if length buf = 0 then Inl ErrTimeNoData
      else if hd buf \<noteq> 1 then Inl ErrTimeVersion
      else if length buf \<noteq> 15 then Inl ErrTimeLength
      else
        let sec = (of_nat (be_nat (take 8 (drop 1 buf))) :: 64 word);
            nsec = (of_nat (be_nat (take 4 (drop 9 buf))) :: 32 word);
            offset = sint (of_nat (be_nat (take 2 (drop 13 buf))) :: 16 word) * 60
        in Inr \<lparr>t_sec = sec, t_nsec = nsec,
                t_loc = (if offset = - 60 then UTC else FixedZone offset)\<rparr>)"

section \<open>Invoices\<close>

definition MaxMemoSize :: nat where "MaxMemoSize = 1024"
definition MaxReceiptSize :: nat where "MaxReceiptSize = 1024"
definition MaxPaymentRequestSize :: nat where "MaxPaymentRequestSize = 4096"

record ContractTerm =
  ExternalPreimage :: bool
  PaymentHash :: "256 word"
  PaymentPreimage :: "256 word"
  Value :: "64 word"
  Settled :: bool

record Invoice =
  Memo :: bytes
  Receipt :: bytes
  PaymentRequest :: bytes
  CreationDate :: Time
  SettleDate :: Time
  Terms :: ContractTerm
  AddIndex :: "64 word"
  SettleIndex :: "64 word"
  AmtPaid :: "64 word"

definition zeroPreimage :: "256 word" where "zeroPreimage = 0"
definition zeroHash :: "256 word" where "zeroHash = 0"

text \<open>
  \<open>getPaymentHash\<close>.  \<open>sha256.Sum256\<close> is the standard library's; it is the parameter
  \<open>H\<close> of every function that reaches it, and every theorem holds for any \<open>H\<close>.
\<close>

definition getPaymentHash :: "(256 word \<Rightarrow> 256 word) \<Rightarrow> Invoice \<Rightarrow> error + 256 word" where
  "getPaymentHash H i =
     (if ExternalPreimage (Terms i) then
        (if PaymentHash (Terms i) = zeroHash then Inl ErrMissingPaymentHash
         else Inr (PaymentHash (Terms i)))
      else
        (if PaymentPreimage (Terms i) = zeroPreimage then Inl ErrMissingPreimage
         else Inr (H (PaymentPreimage (Terms i)))))"

definition validateInvoice :: "Invoice \<Rightarrow> error option" where
  "validateInvoice i =
     (if length (Memo i) > MaxMemoSize then Some ErrMemoTooLong
      else if length (Receipt i) > MaxReceiptSize then Some ErrReceiptTooLong
      else if length (PaymentRequest i) > MaxPaymentRequestSize
      then Some ErrPaymentRequestTooLong
      else None)"

section \<open>The record codec\<close>

text \<open>\<open>serializeInvoice\<close> writes into a \<open>bytes.Buffer\<close>, whose writes do not fail: the
  errors left are those of the two timestamps and of \<open>getPaymentHash\<close>.\<close>

definition serializeInvoice :: "(256 word \<Rightarrow> 256 word) \<Rightarrow> Invoice \<Rightarrow> error + bytes" where
  "serializeInvoice H i =
     (case MarshalBinary (CreationDate i) of
        Inl e \<Rightarrow> Inl e
      | Inr birthBytes \<Rightarrow>
     (case MarshalBinary (SettleDate i) of
        Inl e \<Rightarrow> Inl e
      | Inr settleBytes \<Rightarrow>
     (case (if ExternalPreimage (Terms i) then getPaymentHash H i else Inr zeroHash) of
        Inl e \<Rightarrow> Inl e
      | Inr paymentHash \<Rightarrow>
          Inr (WriteVarBytes (Memo i) @ WriteVarBytes (Receipt i)
               @ WriteVarBytes (PaymentRequest i)
               @ WriteVarBytes birthBytes @ WriteVarBytes settleBytes
               @ bytes32 (PaymentPreimage (Terms i)) @ bytes32 paymentHash
               @ PutUint64 (Value (Terms i)) @ write_bool (Settled (Terms i))
               @ PutUint64 (AddIndex i) @ PutUint64 (SettleIndex i)
               @ PutUint64 (AmtPaid i) @ write_bool (ExternalPreimage (Terms i))))))"

definition read_time :: "Time reader" where
  "read_time =
     andThen (ReadVarBytes 300) (\<lambda>b r.
       case UnmarshalBinary b of Inl e \<Rightarrow> Inl e | Inr t \<Rightarrow> Inr (t, r))"

definition deserializeReader :: "Invoice reader" where
  "deserializeReader =
     andThen (ReadVarBytes MaxMemoSize) (\<lambda>memo.
     andThen (ReadVarBytes MaxReceiptSize) (\<lambda>receipt.
     andThen (ReadVarBytes MaxPaymentRequestSize) (\<lambda>paymentRequest.
     andThen read_time (\<lambda>creationDate.
     andThen read_time (\<lambda>settleDate.
     andThen read_bytes32 (\<lambda>preimage.
     andThen read_bytes32 (\<lambda>paymentHash.
     andThen read_uint64 (\<lambda>val.
     andThen read_bool (\<lambda>settled.
     andThen read_uint64 (\<lambda>addIndex.
     andThen read_uint64 (\<lambda>settleIndex.
     andThen read_uint64 (\<lambda>amtPaid.
     andThen read_bool (\<lambda>externalPreimage.
       ret \<lparr>Memo = memo, Receipt = receipt, PaymentRequest = paymentRequest,
            CreationDate = creationDate, SettleDate = settleDate,
            Terms = \<lparr>ExternalPreimage = externalPreimage,
                     PaymentHash = (if \<not> externalPreimage then zeroHash else paymentHash),
                     PaymentPreimage = preimage, Value = val, Settled = settled\<rparr>,
            AddIndex = addIndex, SettleIndex = settleIndex,
            AmtPaid = amtPaid\<rparr>)))))))))))))"

definition deserializeInvoice :: "bytes \<Rightarrow> error + Invoice" where
  "deserializeInvoice r = (case deserializeReader r of Inl e \<Rightarrow> Inl e | Inr (i, r') \<Rightarrow> Inr i)"

section \<open>The key-value store\<close>

text \<open>
  Modelled from the spec: the store is the bolt library, outside this repository; the spec
  asks of it atomic transactions, iteration in the lexicographic order of the keys, cursors
  with seek, next, prev and last, and an increment-and-fetch counter per bucket.

  A bucket holds its entries in ascending byte order of the keys (\<open>bytes.Compare\<close>, the
  lexicographic order \<open><\<close> on byte lists) and a sequence counter.  \<open>Get\<close> is \<open>None\<close> for
  Go's \<open>nil\<close>.  \<open>Put\<close> can only fail on an empty or oversized key, an oversized value or
  a read-only transaction, and \<open>NextSequence\<close> only on a read-only transaction; none of
  these arises from the calls below (the keys have 3, 4, 8 or 32 bytes, the values are
  4-byte keys or encodings of invoices within the size ceilings, the transactions are
  writable), so both are total and the source's branches on their errors are not taken.
\<close>

type_synonym entries = "(bytes \<times> bytes) list"

record Bucket =
  entries :: entries
  sequence :: "64 word"

definition emptyBucket :: Bucket where
  "emptyBucket = \<lparr>entries = [], sequence = 0\<rparr>"

definition Get :: "entries \<Rightarrow> bytes \<Rightarrow> bytes option" where
  "Get es k = map_of es k"

fun Put :: "bytes \<Rightarrow> bytes \<Rightarrow> entries \<Rightarrow> entries" where
  "Put k v [] = [(k, v)]"
| "Put k v ((k', v') # es) =
     (if k < k' then (k, v) # (k', v') # es
      else if k = k' then (k, v) # es
      else (k', v') # Put k v es)"

definition BPut :: "bytes \<Rightarrow> bytes \<Rightarrow> Bucket \<Rightarrow> Bucket" where
  "BPut k v b = b\<lparr>entries := Put k v (entries b)\<rparr>"

definition NextSequence :: "Bucket \<Rightarrow> 64 word \<times> Bucket" where
  "NextSequence b = (sequence b + 1, b\<lparr>sequence := sequence b + 1\<rparr>)"

definition CreateBucketIfNotExists :: "Bucket option \<Rightarrow> Bucket" where
  "CreateBucketIfNotExists b = (case b of None \<Rightarrow> emptyBucket | Some x \<Rightarrow> x)"

text \<open>
  A cursor is a position in the entries.  \<open>Seek\<close> moves to the first key not below the
  target, \<open>Next\<close> and \<open>Prev\<close> move one entry and answer \<open>None\<close> at either end, \<open>Last\<close>
  moves to the last entry.
\<close>

definition cursor_at :: "entries \<Rightarrow> nat \<Rightarrow> (bytes \<times> bytes) option" where
  "cursor_at es p = (if p < length es then Some (es ! p) else None)"

definition Seek :: "entries \<Rightarrow> bytes \<Rightarrow> (bytes \<times> bytes) option \<times> nat" where
  "Seek es k = (let p = length (takeWhile (\<lambda>e. fst e < k) es) in (cursor_at es p, p))"

definition Next :: "entries \<Rightarrow> nat \<Rightarrow> (bytes \<times> bytes) option \<times> nat" where
  "Next es p = (if p + 1 < length es then (Some (es ! (p + 1)), p + 1) else (None, p))"

definition Prev :: "entries \<Rightarrow> nat \<Rightarrow> (bytes \<times> bytes) option \<times> nat" where
  "Prev es p = (if 0 < p \<and> p - 1 < length es then (Some (es ! (p - 1)), p - 1) else (None, p))"

definition Last :: "entries \<Rightarrow> (bytes \<times> bytes) option \<times> nat" where
  "Last es = (if es = [] then (None, 0) else (Some (last es), length es - 1))"

section \<open>The ledger\<close>

text \<open>
  The top-level \<open>invoices\<close> bucket holds the invoice records under their 4-byte keys and
  three nested buckets: \<open>paymenthashes\<close> (payment hash to invoice key, and the counter
  under \<open>nik\<close>), \<open>invoice-add-index\<close> and \<open>invoice-settle-index\<close>.  A bucket that has not
  been created is \<open>None\<close>; the database is the \<open>invoices\<close> bucket, or \<open>None\<close> before its
  creation.
\<close>

record InvoiceBucket =
  invoiceRecords :: entries
  invoiceIndexBucket :: "Bucket option"
  addIndexBucket :: "Bucket option"
  settleIndexBucket :: "Bucket option"

type_synonym DB = "InvoiceBucket option"

definition emptyInvoiceBucket :: InvoiceBucket where
  "emptyInvoiceBucket =
     \<lparr>invoiceRecords = [], invoiceIndexBucket = None, addIndexBucket = None,
      settleIndexBucket = None\<rparr>"

definition createInvoiceBucket :: "DB \<Rightarrow> InvoiceBucket" where
  "createInvoiceBucket d = (case d of None \<Rightarrow> emptyInvoiceBucket | Some x \<Rightarrow> x)"

definition numInvoicesKey :: bytes where
  "numInvoicesKey = [0x6e, 0x69, 0x6b]"

text \<open>\<open>DB.Update\<close>: the transaction is committed when its body returns no error and
  rolled back otherwise.\<close>

definition Update :: "(DB \<Rightarrow> error + ('a \<times> DB)) \<Rightarrow> DB \<Rightarrow> (error + 'a) \<times> DB" where
  "Update f d = (case f d of Inl e \<Rightarrow> (Inl e, d) | Inr (a, d') \<Rightarrow> (Inr a, d'))"

definition fetchInvoice :: "bytes \<Rightarrow> entries \<Rightarrow> error + Invoice" where
  "fetchInvoice invoiceNum invoices =
     (case Get invoices invoiceNum of
        None \<Rightarrow> Inl ErrInvoiceNotFound
      | Some invoiceBytes \<Rightarrow> deserializeInvoice invoiceBytes)"

text \<open>
  \<open>putInvoice\<close> works on the three buckets of the open transaction and returns them
  with the new add index (which it also stores in the caller's invoice, \<open>i'\<close> here).
  When \<open>serializeInvoice\<close> fails it returns \<open>0, nil\<close>: no error, and the buckets as
  written so far.
\<close>

definition putInvoice ::
  "(256 word \<Rightarrow> 256 word) \<Rightarrow> entries \<Rightarrow> Bucket \<Rightarrow> Bucket \<Rightarrow> Invoice \<Rightarrow> 32 word
     \<Rightarrow> error + (64 word \<times> entries \<times> Bucket \<times> Bucket)" where
  "putInvoice H invoices invoiceIndex addIndex i invoiceNum =
     (let invoiceKey = PutUint32 invoiceNum;
          invoiceCounter = invoiceNum + 1;
          invoiceIndex1 = BPut numInvoicesKey (PutUint32 invoiceCounter) invoiceIndex
      in case getPaymentHash H i of
           Inl e \<Rightarrow> Inl e
         | Inr paymentHash \<Rightarrow>
             let invoiceIndex2 = BPut (bytes32 paymentHash) invoiceKey invoiceIndex1;
                 (nextAddSeqNo, addIndex1) = NextSequence addIndex;
                 addIndex2 = BPut (PutUint64 nextAddSeqNo) invoiceKey addIndex1;
                 i' = i\<lparr>AddIndex := nextAddSeqNo\<rparr>
             in case serializeInvoice H i' of
                  Inl e \<Rightarrow> Inr (0, invoices, invoiceIndex2, addIndex2)
                | Inr buf \<Rightarrow>
                    Inr (nextAddSeqNo, Put invoiceKey buf invoices, invoiceIndex2, addIndex2))"

text \<open>The counter is read with \<open>byteOrder.Uint32\<close>, which takes the first four bytes of
  the stored value and panics on a shorter one; the panic unwinds the transaction, which
  is rolled back, and is the error \<open>PanicIndexOutOfRange\<close> here.\<close>

definition readCounter :: "bytes \<Rightarrow> error + 32 word" where
  "readCounter c =
     (if length c < 4 then Inl PanicIndexOutOfRange else Inr (Uint32 (take 4 c)))"

definition addInvoiceTx ::
  "(256 word \<Rightarrow> 256 word) \<Rightarrow> Invoice \<Rightarrow> DB \<Rightarrow> error + (64 word \<times> DB)" where
  "addInvoiceTx H newInvoice tx =
     (let invoices = createInvoiceBucket tx;
          invoiceIndex = CreateBucketIfNotExists (invoiceIndexBucket invoices);
          addIndex = CreateBucketIfNotExists (addIndexBucket invoices)
      in case getPaymentHash H newInvoice of
           Inl e \<Rightarrow> Inl e
         | Inr paymentHash \<Rightarrow>
             if Get (entries invoiceIndex) (bytes32 paymentHash) \<noteq> None
             then Inl ErrDuplicateInvoice
             else
               case (case Get (entries invoiceIndex) numInvoicesKey of
                       None \<Rightarrow> Inr (0, BPut numInvoicesKey (PutUint32 0) invoiceIndex)
                     | Some invoiceCounter \<Rightarrow>
                         (case readCounter invoiceCounter of
                            Inl e \<Rightarrow> Inl e
                          | Inr n \<Rightarrow> Inr (n, invoiceIndex))) of
                 Inl e \<Rightarrow> Inl e
               | Inr (invoiceNum, invoiceIndex1) \<Rightarrow>
                   (case putInvoice H (invoiceRecords invoices) invoiceIndex1 addIndex
                           newInvoice invoiceNum of
                      Inl e \<Rightarrow> Inl e
                    | Inr (newIndex, invoices', invoiceIndex', addIndex') \<Rightarrow>
                        Inr (newIndex,
                             Some (invoices\<lparr>invoiceRecords := invoices',
                                     invoiceIndexBucket := Some invoiceIndex',
                                     addIndexBucket := Some addIndex'\<rparr>))))"

definition AddInvoice ::
  "(256 word \<Rightarrow> 256 word) \<Rightarrow> DB \<Rightarrow> Invoice \<Rightarrow> (error + 64 word) \<times> DB" where
  "AddInvoice H d newInvoice =
     (case validateInvoice newInvoice of
        Some e \<Rightarrow> (Inl e, d)
      | None \<Rightarrow> Update (addInvoiceTx H newInvoice) d)"

definition LookupInvoice :: "DB \<Rightarrow> 256 word \<Rightarrow> error + Invoice" where
  "LookupInvoice d paymentHash =
     (case d of
        None \<Rightarrow> Inl ErrNoInvoicesCreated
      | Some invoices \<Rightarrow>
          (case invoiceIndexBucket invoices of
             None \<Rightarrow> Inl ErrNoInvoicesCreated
           | Some invoiceIndex \<Rightarrow>
               (case Get (entries invoiceIndex) (bytes32 paymentHash) of
                  None \<Rightarrow> Inl ErrInvoiceNotFound
                | Some invoiceNum \<Rightarrow> fetchInvoice invoiceNum (invoiceRecords invoices))))"

text \<open>\<open>Bucket.ForEach\<close> visits the entries in key order and stops at the first error; the
  nested buckets, which it visits with a \<open>nil\<close> value, are skipped by the callback.\<close>

fun fetchAllLoop :: "bool \<Rightarrow> entries \<Rightarrow> Invoice list \<Rightarrow> error + Invoice list" where
  "fetchAllLoop pendingOnly [] invoices = Inr invoices"
| "fetchAllLoop pendingOnly ((k, v) # es) invoices =
     (case deserializeInvoice v of
        Inl e \<Rightarrow> Inl e
      | Inr invoice \<Rightarrow>
          if pendingOnly \<and> Settled (Terms invoice) then fetchAllLoop pendingOnly es invoices
          else fetchAllLoop pendingOnly es (invoices @ [invoice]))"

definition FetchAllInvoices :: "DB \<Rightarrow> bool \<Rightarrow> error + Invoice list" where
  "FetchAllInvoices d pendingOnly =
     (case d of
        None \<Rightarrow> Inl ErrNoInvoicesCreated
      | Some invoiceB \<Rightarrow> fetchAllLoop pendingOnly (invoiceRecords invoiceB) [])"

text \<open>The loop of \<open>InvoicesAddedSince\<close> and of \<open>InvoicesSettledSince\<close> (the same loop in
  both): the cursor's current entry and position, and the invoices collected so far.\<close>

function sinceLoop ::
  "entries \<Rightarrow> entries \<Rightarrow> bytes \<Rightarrow> (bytes \<times> bytes) option \<times> nat \<Rightarrow> Invoice list
     \<Rightarrow> error + Invoice list" where
  "sinceLoop invoices idx startIndex (cur, p) acc =
     (case cur of
        None \<Rightarrow> Inr acc
      | Some (seqNo, invoiceKey) \<Rightarrow>
          if \<not> (seqNo > startIndex) then Inr acc
          else
            (case fetchInvoice invoiceKey invoices of
               Inl e \<Rightarrow> Inl e
             | Inr invoice \<Rightarrow>
                 sinceLoop invoices idx startIndex (Next idx p) (acc @ [invoice])))"
  by pat_completeness auto
termination
  by (relation "measure (\<lambda>(invoices, idx, startIndex, (cur, p), acc).
        case cur of None \<Rightarrow> 0 | Some x \<Rightarrow> Suc (length idx - p))")
     (auto simp: Next_def split: if_splits)

declare sinceLoop.simps [simp del]

definition sinceScan :: "entries \<Rightarrow> entries \<Rightarrow> 64 word \<Rightarrow> error + Invoice list" where
  "sinceScan invoices idx sinceIndex =
     (let startIndex = PutUint64 sinceIndex;
          (cur0, p0) = Seek idx startIndex
      in sinceLoop invoices idx startIndex (Next idx p0) [])"

definition InvoicesAddedSince :: "DB \<Rightarrow> 64 word \<Rightarrow> error + Invoice list" where
  "InvoicesAddedSince d sinceAddIndex =
     (if sinceAddIndex = 0 then Inr []
      else
        case (case d of
                None \<Rightarrow> Inl ErrNoInvoicesCreated
              | Some invoices \<Rightarrow>
                  (case addIndexBucket invoices of
                     None \<Rightarrow> Inl ErrNoInvoicesCreated
                   | Some addIndex \<Rightarrow>
                       sinceScan (invoiceRecords invoices) (entries addIndex) sinceAddIndex)) of
          Inl e \<Rightarrow> if e = ErrNoInvoicesCreated then Inr [] else Inl e
        | Inr newInvoices \<Rightarrow> Inr newInvoices)"

definition InvoicesSettledSince :: "DB \<Rightarrow> 64 word \<Rightarrow> error + Invoice list" where
  "InvoicesSettledSince d sinceSettleIndex =
     (if sinceSettleIndex = 0 then Inr []
      else
        case (case d of
                None \<Rightarrow> Inl ErrNoInvoicesCreated
              | Some invoices \<Rightarrow>
                  (case settleIndexBucket invoices of
                     None \<Rightarrow> Inl ErrNoInvoicesCreated
                   | Some settleIndex \<Rightarrow>
                       sinceScan (invoiceRecords invoices) (entries settleIndex)
                         sinceSettleIndex)) of
          Inl e \<Rightarrow> Inl e
        | Inr settledInvoices \<Rightarrow> Inr settledInvoices)"


section \<open>Pagination\<close>

record InvoiceQuery =
  IndexOffset :: "64 word"
  NumMaxInvoices :: "64 word"
  PendingOnly :: bool
  Reversed :: bool

record InvoiceSlice =
  Query :: InvoiceQuery
  Invoices :: "Invoice list"
  FirstIndexOffset :: "64 word"
  LastIndexOffset :: "64 word"

definition keyForIndex :: "entries \<Rightarrow> 64 word \<Rightarrow> (bytes \<times> bytes) option \<times> nat" where
  "keyForIndex idx index = Seek idx (PutUint64 index)"

definition nextKey :: "InvoiceQuery \<Rightarrow> entries \<Rightarrow> nat \<Rightarrow> (bytes \<times> bytes) option \<times> nat" where
  "nextKey q idx p = (if Reversed q then Prev idx p else Next idx p)"

function queryLoop ::
  "InvoiceQuery \<Rightarrow> entries \<Rightarrow> entries \<Rightarrow> (bytes \<times> bytes) option \<times> nat \<Rightarrow> Invoice list
     \<Rightarrow> error + Invoice list" where
  "queryLoop q invoices idx (cur, p) acc =
     (case cur of
        None \<Rightarrow> Inr acc
      | Some (seqNo, invoiceKey) \<Rightarrow>
          if length acc \<ge> unat (NumMaxInvoices q) then Inr acc
          else
            (case fetchInvoice invoiceKey invoices of
               Inl e \<Rightarrow> Inl e
             | Inr invoice \<Rightarrow>
                 if PendingOnly q \<and> Settled (Terms invoice)
                 then queryLoop q invoices idx (nextKey q idx p) acc
                 else queryLoop q invoices idx (nextKey q idx p) (acc @ [invoice])))"
  by pat_completeness auto
termination
  by (relation "measure (\<lambda>(q, invoices, idx, (cur, p), acc).
        case cur of None \<Rightarrow> 0
        | Some x \<Rightarrow> if Reversed q then Suc p else Suc (length idx - p))")
     (auto simp: nextKey_def Next_def Prev_def split: if_splits)

declare queryLoop.simps [simp del]

text \<open>The body of the read transaction of \<open>QueryInvoices\<close>.  The in-place swap loop that
  closes a reversed query is list reversal.\<close>

definition queryInvoicesTx :: "InvoiceQuery \<Rightarrow> DB \<Rightarrow> error + Invoice list" where
  "queryInvoicesTx q tx =
     (case tx of
        None \<Rightarrow> Inl ErrNoInvoicesCreated
      | Some invoices \<Rightarrow>
          (case addIndexBucket invoices of
             None \<Rightarrow> Inl ErrNoInvoicesCreated
           | Some invoiceAddIndex \<Rightarrow>
               let idx = entries invoiceAddIndex;
                   c0 = keyForIndex idx (IndexOffset q + 1)
               in if Reversed q \<and> IndexOffset q = 1 then Inr []
                  else
                    let c = (if Reversed q then
                               (if IndexOffset q = 0 then Last idx
                                else keyForIndex idx (IndexOffset q - 1))
                             else c0)
                    in case queryLoop q (invoiceRecords invoices) idx c [] of
                         Inl e \<Rightarrow> Inl e
                       | Inr collected \<Rightarrow>
                           Inr (if Reversed q then rev collected else collected)))"

definition QueryInvoices :: "DB \<Rightarrow> InvoiceQuery \<Rightarrow> error + InvoiceSlice" where
  "QueryInvoices d q =
     (case (case queryInvoicesTx q d of
              Inl e \<Rightarrow> if e \<noteq> ErrNoInvoicesCreated then Inl e else Inr []
            | Inr invs \<Rightarrow> Inr invs) of
        Inl e \<Rightarrow> Inl e
      | Inr invs \<Rightarrow>
          Inr \<lparr>Query = q, Invoices = invs,
               FirstIndexOffset = (if length invs > 0 then AddIndex (hd invs) else 0),
               LastIndexOffset = (if length invs > 0 then AddIndex (last invs) else 0)\<rparr>)"

section \<open>Settlement and preimage disclosure\<close>

text \<open>\<open>settleInvoice\<close>; \<open>now\<close> is the reading of \<open>time.Now()\<close>.\<close>

definition settleInvoice ::
  "(256 word \<Rightarrow> 256 word) \<Rightarrow> entries \<Rightarrow> Bucket \<Rightarrow> bytes \<Rightarrow> 64 word \<Rightarrow> Time
     \<Rightarrow> error + (Invoice \<times> entries \<times> Bucket)" where
  "settleInvoice H invoices settleIndex invoiceNum amtPaid now =
     (case fetchInvoice invoiceNum invoices of
        Inl e \<Rightarrow> Inl e
      | Inr invoice \<Rightarrow>
          if Settled (Terms invoice) then Inr (invoice, invoices, settleIndex)
          else
            let (nextSettleSeqNo, settleIndex1) = NextSequence settleIndex;
                settleIndex2 = BPut (PutUint64 nextSettleSeqNo) invoiceNum settleIndex1;
                invoice' = invoice\<lparr>AmtPaid := amtPaid,
                                   Terms := (Terms invoice)\<lparr>Settled := True\<rparr>,
                                   SettleDate := now,
                                   SettleIndex := nextSettleSeqNo\<rparr>
            in case serializeInvoice H invoice' of
                 Inl e \<Rightarrow> Inl e
               | Inr buf \<Rightarrow> Inr (invoice', Put invoiceNum buf invoices, settleIndex2))"

definition settleInvoiceTx ::
  "(256 word \<Rightarrow> 256 word) \<Rightarrow> 256 word \<Rightarrow> 64 word \<Rightarrow> Time \<Rightarrow> DB
     \<Rightarrow> error + (Invoice \<times> DB)" where
  "settleInvoiceTx H paymentHash amtPaid now tx =
     (let invoices = createInvoiceBucket tx;
          invoiceIndex = CreateBucketIfNotExists (invoiceIndexBucket invoices);
          settleIndex = CreateBucketIfNotExists (settleIndexBucket invoices)
      in case Get (entries invoiceIndex) (bytes32 paymentHash) of
           None \<Rightarrow> Inl ErrInvoiceNotFound
         | Some invoiceNum \<Rightarrow>
             (case settleInvoice H (invoiceRecords invoices) settleIndex invoiceNum
                     amtPaid now of
                Inl e \<Rightarrow> Inl e
              | Inr (invoice, invoices', settleIndex') \<Rightarrow>
                  Inr (invoice,
                       Some (invoices\<lparr>invoiceRecords := invoices',
                               invoiceIndexBucket := Some invoiceIndex,
                               settleIndexBucket := Some settleIndex'\<rparr>))))"

definition SettleInvoice ::
  "(256 word \<Rightarrow> 256 word) \<Rightarrow> DB \<Rightarrow> 256 word \<Rightarrow> 64 word \<Rightarrow> Time
     \<Rightarrow> (error + Invoice) \<times> DB" where
  "SettleInvoice H d paymentHash amtPaid now =
     Update (settleInvoiceTx H paymentHash amtPaid now) d"

text \<open>\<open>addInvoicePreimage\<close>.  When \<open>serializeInvoice\<close> fails it returns \<open>nil\<close>: no error,
  nothing written.\<close>

definition addInvoicePreimage ::
  "(256 word \<Rightarrow> 256 word) \<Rightarrow> entries \<Rightarrow> bytes \<Rightarrow> 256 word \<Rightarrow> error + entries" where
  "addInvoicePreimage H invoices invoiceNum paymentPreimage =
     (case fetchInvoice invoiceNum invoices of
        Inl e \<Rightarrow> Inl e
      | Inr invoice \<Rightarrow>
          if \<not> ExternalPreimage (Terms invoice) then Inl ErrNotExternalPreimage
          else if zeroPreimage \<noteq> PaymentPreimage (Terms invoice)
          then Inl ErrPreimageAlreadySet
          else
            let invoice' = invoice\<lparr>Terms := (Terms invoice)\<lparr>PaymentPreimage := paymentPreimage\<rparr>\<rparr>
            in case serializeInvoice H invoice' of
                 Inl e \<Rightarrow> Inr invoices
               | Inr buf \<Rightarrow> Inr (Put invoiceNum buf invoices))"

definition addInvoicePreimageTx ::
  "(256 word \<Rightarrow> 256 word) \<Rightarrow> 256 word \<Rightarrow> 256 word \<Rightarrow> DB \<Rightarrow> error + (unit \<times> DB)" where
  "addInvoicePreimageTx H paymentHash paymentPreimage tx =
     (let invoices = createInvoiceBucket tx;
          invoiceIndex = CreateBucketIfNotExists (invoiceIndexBucket invoices)
      in case Get (entries invoiceIndex) (bytes32 paymentHash) of
           None \<Rightarrow> Inl ErrInvoiceNotFound
         | Some invoiceNum \<Rightarrow>
             (case addInvoicePreimage H (invoiceRecords invoices) invoiceNum
                     paymentPreimage of
                Inl e \<Rightarrow> Inl e
              | Inr invoices' \<Rightarrow>
                  Inr ((), Some (invoices\<lparr>invoiceRecords := invoices',
                                   invoiceIndexBucket := Some invoiceIndex\<rparr>))))"

definition AddInvoicePreimage ::
  "(256 word \<Rightarrow> 256 word) \<Rightarrow> DB \<Rightarrow> 256 word \<Rightarrow> 256 word \<Rightarrow> (error + unit) \<times> DB" where
  "AddInvoicePreimage H d paymentHash paymentPreimage =
     Update (addInvoicePreimageTx H paymentHash paymentPreimage) d"

section \<open>Notions used in the statements\<close>

text \<open>What reading a record back yields: the invoice as written, the payment hash
  replaced by zero when the preimage is not external.\<close>

definition storedForm :: "Invoice \<Rightarrow> Invoice" where
  "storedForm i =
     i\<lparr>Terms := (Terms i)\<lparr>PaymentHash :=
          (if ExternalPreimage (Terms i) then PaymentHash (Terms i) else zeroHash)\<rparr>\<rparr>"

definition withinCeilings :: "Invoice \<Rightarrow> bool" where
  "withinCeilings i \<longleftrightarrow>
     length (Memo i) \<le> MaxMemoSize \<and> length (Receipt i) \<le> MaxReceiptSize
     \<and> length (PaymentRequest i) \<le> MaxPaymentRequestSize"

definition timeEncodable :: "Time \<Rightarrow> bool" where
  "timeEncodable t = (case MarshalBinary t of Inl e \<Rightarrow> False | Inr b \<Rightarrow> True)"

text \<open>Encoding, then decoding.\<close>

definition decodeEncode :: "(256 word \<Rightarrow> 256 word) \<Rightarrow> Invoice \<Rightarrow> error + Invoice" where
  "decodeEncode H i =
     (case serializeInvoice H i of Inl e \<Rightarrow> Inl e | Inr b \<Rightarrow> deserializeInvoice b)"

text \<open>Observations of a ledger: whether a payment hash is in the hash index, the
  counters of the two event series, and whether the invoice counter, when present, has
  the four bytes \<open>AddInvoice\<close> reads.\<close>

definition hashIndexed :: "DB \<Rightarrow> 256 word \<Rightarrow> bool" where
  "hashIndexed d h =
     (case d of
        None \<Rightarrow> False
      | Some ib \<Rightarrow>
          (case invoiceIndexBucket ib of
             None \<Rightarrow> False
           | Some ix \<Rightarrow> Get (entries ix) (bytes32 h) \<noteq> None))"

definition addSequence :: "DB \<Rightarrow> 64 word" where
  "addSequence d =
     (case d of
        None \<Rightarrow> 0
      | Some ib \<Rightarrow> (case addIndexBucket ib of None \<Rightarrow> 0 | Some b \<Rightarrow> sequence b))"

definition settleSequence :: "DB \<Rightarrow> 64 word" where
  "settleSequence d =
     (case d of
        None \<Rightarrow> 0
      | Some ib \<Rightarrow> (case settleIndexBucket ib of None \<Rightarrow> 0 | Some b \<Rightarrow> sequence b))"

definition settleEntries :: "DB \<Rightarrow> entries" where
  "settleEntries d =
     (case d of
        None \<Rightarrow> []
      | Some ib \<Rightarrow> (case settleIndexBucket ib of None \<Rightarrow> [] | Some b \<Rightarrow> entries b))"

definition recordsOf :: "DB \<Rightarrow> entries" where
  "recordsOf d = (case d of None \<Rightarrow> [] | Some ib \<Rightarrow> invoiceRecords ib)"

definition nextInvoiceNum :: "DB \<Rightarrow> 32 word" where
  "nextInvoiceNum d =
     (case Get (entries (CreateBucketIfNotExists (invoiceIndexBucket (createInvoiceBucket d))))
             numInvoicesKey of
        None \<Rightarrow> 0
      | Some c \<Rightarrow> Uint32 (take 4 c))"

definition counterReadable :: "DB \<Rightarrow> bool" where
  "counterReadable d =
     (case d of
        None \<Rightarrow> True
      | Some ib \<Rightarrow>
          (case invoiceIndexBucket ib of
             None \<Rightarrow> True
           | Some ix \<Rightarrow>
               (case Get (entries ix) numInvoicesKey of
                  None \<Rightarrow> True
                | Some c \<Rightarrow> 4 \<le> length c)))"

section \<open>Example ledgers\<close>

text \<open>
  Small ledgers for the examples.  \<open>exampleSum256\<close> fills the hash parameter there; the
  external-preimage invoice \<open>invoiceB\<close> carries its payment hash, so no hash is computed
  for it.
\<close>

definition exampleSum256 :: "256 word \<Rightarrow> 256 word" where
  "exampleSum256 x = x + 1"

definition exampleTime :: Time where
  "exampleTime = \<lparr>t_sec = 63676800000, t_nsec = 0, t_loc = FixedZone 3600\<rparr>"

definition invoiceB :: Invoice where
  "invoiceB =
     \<lparr>Memo = [0x6d, 0x65, 0x6d, 0x6f], Receipt = [], PaymentRequest = [],
      CreationDate = exampleTime, SettleDate = zeroTime,
      Terms = \<lparr>ExternalPreimage = True, PaymentHash = 7, PaymentPreimage = 0,
               Value = 10000, Settled = False\<rparr>,
      AddIndex = 0, SettleIndex = 0, AmtPaid = 0\<rparr>"

definition ledgerB :: DB where
  "ledgerB = snd (AddInvoice exampleSum256 None invoiceB)"

definition ledgerBsettled :: DB where
  "ledgerBsettled = snd (SettleInvoice exampleSum256 ledgerB 7 10000 exampleTime)"

definition invoiceA :: Invoice where
  "invoiceA =
     \<lparr>Memo = [0x6d, 0x65, 0x6d, 0x6f], Receipt = [], PaymentRequest = [],
      CreationDate = exampleTime, SettleDate = zeroTime,
      Terms = \<lparr>ExternalPreimage = False, PaymentHash = 0, PaymentPreimage = 3,
               Value = 10000, Settled = False\<rparr>,
      AddIndex = 0, SettleIndex = 0, AmtPaid = 0\<rparr>"

definition ledgerA :: DB where
  "ledgerA = snd (AddInvoice exampleSum256 None invoiceA)"

definition settledB :: Invoice where
  "settledB = invoiceB\<lparr>AddIndex := 1, AmtPaid := 10000,
                Terms := (Terms invoiceB)\<lparr>Settled := True\<rparr>,
                SettleDate := exampleTime, SettleIndex := 1\<rparr>"

definition invoiceWithHash :: Invoice where
  "invoiceWithHash = invoiceA\<lparr>Terms := (Terms invoiceA)\<lparr>PaymentHash := 4\<rparr>\<rparr>"

definition oversizedB :: Invoice where
  "oversizedB = invoiceB\<lparr>Memo := replicate 1025 0\<rparr>"

definition unencodableInvoice :: Invoice where
  "unencodableInvoice = invoiceB\<lparr>CreationDate := exampleTime\<lparr>t_loc := FixedZone (- 60)\<rparr>\<rparr>"

definition invoiceC :: Invoice where
  "invoiceC = invoiceB\<lparr>Terms := (Terms invoiceB)\<lparr>PaymentHash := 9\<rparr>\<rparr>"

text \<open>The outcome of \<open>AddInvoice\<close> on a ledger that does not index the payment hash
  \<open>h\<close> of the invoice yet, written out: the hash index after the counter has been
  initialised, and the ledger after the writes of \<open>putInvoice\<close>.\<close>

definition indexAfterCounter :: "DB \<Rightarrow> Bucket" where
  "indexAfterCounter d =
     (let ix = CreateBucketIfNotExists (invoiceIndexBucket (createInvoiceBucket d))
      in case Get (entries ix) numInvoicesKey of
           None \<Rightarrow> BPut numInvoicesKey (PutUint32 0) ix
         | Some c \<Rightarrow> ix)"

definition addedLedger ::
  "(256 word \<Rightarrow> 256 word) \<Rightarrow> DB \<Rightarrow> Invoice \<Rightarrow> 256 word \<Rightarrow> (error + 64 word) \<times> DB" where
  "addedLedger H d i h =
     (let ib = createInvoiceBucket d;
          ai = CreateBucketIfNotExists (addIndexBucket ib);
          num = nextInvoiceNum d;
          ix' = BPut (bytes32 h) (PutUint32 num)
                  (BPut numInvoicesKey (PutUint32 (num + 1)) (indexAfterCounter d));
          ai' = BPut (PutUint64 (sequence ai + 1)) (PutUint32 num)
                  (ai\<lparr>sequence := sequence ai + 1\<rparr>)
      in case serializeInvoice H (i\<lparr>AddIndex := sequence ai + 1\<rparr>) of
           Inl e \<Rightarrow>
             (Inr 0, Some (ib\<lparr>invoiceIndexBucket := Some ix', addIndexBucket := Some ai'\<rparr>))
         | Inr b \<Rightarrow>
             (Inr (sequence ai + 1),
              Some (ib\<lparr>invoiceRecords := Put (PutUint32 num) b (invoiceRecords ib),
                      invoiceIndexBucket := Some ix', addIndexBucket := Some ai'\<rparr>)))"

text \<open>The invoices a query keeps (all of them, or the pending ones only) and the page
  it takes from a list of candidates.\<close>

definition keep :: "InvoiceQuery \<Rightarrow> Invoice \<Rightarrow> bool" where
  "keep q i = (\<not> (PendingOnly q \<and> Settled (Terms i)))"

definition page :: "InvoiceQuery \<Rightarrow> Invoice list \<Rightarrow> Invoice list" where
  "page q xs = take (unat (NumMaxInvoices q)) (filter (keep q) xs)"

text \<open>\<open>addSeries d invs\<close>: the add index of the ledger holds exactly the sequence
  numbers 1 to \<open>length invs\<close>, and the entry of sequence number \<open>n\<close> leads to the
  record of the \<open>n\<close>-th invoice of \<open>invs\<close>, whose add index is \<open>n\<close>.\<close>

definition addSeries :: "DB \<Rightarrow> Invoice list \<Rightarrow> bool" where
  "addSeries d invs =
     (case d of
        None \<Rightarrow> False
      | Some ib \<Rightarrow>
          (case addIndexBucket ib of
             None \<Rightarrow> False
           | Some ai \<Rightarrow>
               length invs < 2 ^ 64
               \<and> map fst (entries ai) = map (\<lambda>n. PutUint64 (of_nat n)) [1..<Suc (length invs)]
               \<and> map (\<lambda>e. fetchInvoice (snd e) (invoiceRecords ib)) (entries ai) = map Inr invs
               \<and> map AddIndex invs = map of_nat [1..<Suc (length invs)]))"

text \<open>\<open>ledgerOf d invs\<close>: the state of the counter, of the add index and of the
  records that adding the invoices \<open>invs\<close> one after the other leaves behind; it is
  established by \<open>AddInvoice\<close> on the empty ledger and preserved by every further
  \<open>AddInvoice\<close> that writes its record.\<close>

definition ledgerOf :: "DB \<Rightarrow> Invoice list \<Rightarrow> bool" where
  "ledgerOf d invs =
     (let ib = createInvoiceBucket d;
          ai = CreateBucketIfNotExists (addIndexBucket ib)
      in length invs < 2 ^ 32
         \<and> counterReadable d \<and> nextInvoiceNum d = of_nat (length invs)
         \<and> sequence ai = of_nat (length invs)
         \<and> entries ai = map (\<lambda>n. (PutUint64 (of_nat (Suc n)), PutUint32 (of_nat n)))
                            [0..<length invs]
         \<and> map (\<lambda>n. fetchInvoice (PutUint32 (of_nat n)) (invoiceRecords ib)) [0..<length invs]
               = map Inr invs
         \<and> map AddIndex invs = map of_nat [1..<Suc (length invs)])"

definition ledgerBC :: DB where
  "ledgerBC = snd (AddInvoice exampleSum256 ledgerB invoiceC)"

section \<open>Fixed-width integers and length prefixes\<close>

lemma length_be_bytes [simp]: "length (be_bytes n x) = n"
  by (induction n arbitrary: x) auto

lemma length_le_bytes [simp]: "length (le_bytes n x) = n"
  by (induction n arbitrary: x) auto

lemma be_nat_snoc: "be_nat (bs @ [b]) = be_nat bs * 256 + unat b"
  by (simp add: be_nat_def)

lemma unat_byte_of_nat_mod: "unat (of_nat (x mod 256) :: byte) = x mod 256"
  by (simp add: unat_of_nat)

lemma be_nat_be_bytes: "be_nat (be_bytes n x) = x mod 256 ^ n"
proof (induction n arbitrary: x)
  case 0
  then show ?case by (simp add: be_nat_def)
next
  case (Suc n)
  have "be_nat (be_bytes (Suc n) x) = (x div 256) mod 256 ^ n * 256 + x mod 256"
    by (simp add: be_nat_snoc Suc unat_byte_of_nat_mod)
  also have "\<dots> = x mod 256 ^ Suc n"
    by (simp add: mod_mult2_eq mult.commute)
  finally show ?case .
qed

lemma le_nat_le_bytes: "le_nat (le_bytes n x) = x mod 256 ^ n"
proof (induction n arbitrary: x)
  case 0
  then show ?case by (simp add: le_nat_def)
next
  case (Suc n)
  have "le_nat (le_bytes (Suc n) x) = x mod 256 + 256 * ((x div 256) mod 256 ^ n)"
    using Suc by (simp add: le_nat_def unat_byte_of_nat_mod)
  also have "\<dots> = x mod 256 ^ Suc n"
    by (simp add: mod_mult2_eq mult.commute)
  finally show ?case .
qed

lemma Uint64_PutUint64 [simp]: "Uint64 (PutUint64 v) = v"
proof -
  have "unat v < 256 ^ 8" using unsigned_less [of v, where 'a = nat] by simp
  then show ?thesis by (simp add: Uint64_def PutUint64_def be_nat_be_bytes)
qed

lemma Uint32_PutUint32 [simp]: "Uint32 (PutUint32 v) = v"
proof -
  have "unat v < 256 ^ 4" using unsigned_less [of v, where 'a = nat] by simp
  then show ?thesis by (simp add: Uint32_def PutUint32_def be_nat_be_bytes)
qed

lemma of_bytes32_bytes32 [simp]: "of_bytes32 (bytes32 v) = v"
proof -
  have "unat v < 256 ^ 32" using unsigned_less [of v, where 'a = nat] by simp
  then show ?thesis by (simp add: of_bytes32_def bytes32_def be_nat_be_bytes)
qed

lemma ReadFull_append: "length b = n \<Longrightarrow> ReadFull n (b @ r) = Inr (b, r)"
  by (simp add: ReadFull_def)

lemma andThen_Inr: "m r = Inr (a, r') \<Longrightarrow> andThen m f r = f a r'"
  by (simp add: andThen_def)

lemma andThen_eq_Inr:
  "andThen m f r = Inr y \<longleftrightarrow> (\<exists>a r'. m r = Inr (a, r') \<and> f a r' = Inr y)"
  by (auto simp: andThen_def split: sum.splits)

lemma ReadFull_1 [simp]: "ReadFull (Suc 0) (x # r) = Inr ([x], r)" "ReadFull 1 (x # r) = Inr ([x], r)"
  by (simp_all add: ReadFull_def)

lemma byte_of_nat_neq: "n < 256 \<Longrightarrow> m < 256 \<Longrightarrow> n \<noteq> m \<Longrightarrow> (of_nat n :: byte) \<noteq> of_nat m"
proof
  assume a: "n < 256" "m < 256" "n \<noteq> m" and e: "(of_nat n :: byte) = of_nat m"
  have "unat (of_nat n :: byte) = unat (of_nat m :: byte)" using e by simp
  then have "n = m" using a by (simp add: unat_of_nat)
  then show False using a by simp
qed

lemma ReadVarInt_small:
  assumes "n < 0xfd"
  shows "ReadVarInt (WriteVarInt n @ r) = Inr (n, r)"
proof -
  have u: "unat (of_nat n :: byte) = n" using assms by (simp add: unat_of_nat)
  have ne: "(of_nat n :: byte) \<noteq> 0xff" "(of_nat n :: byte) \<noteq> 0xfe" "(of_nat n :: byte) \<noteq> 0xfd"
    using assms byte_of_nat_neq [of n 255] byte_of_nat_neq [of n 254] byte_of_nat_neq [of n 253]
    by simp_all
  have w: "WriteVarInt n = [of_nat n]" using assms by (simp add: WriteVarInt_def)
  show ?thesis unfolding w ReadVarInt_def
    by (simp add: andThen_def ret_def ne u)
qed

lemma le_bytes_2: "le_bytes 2 n = [of_nat (n mod 256), of_nat (n div 256 mod 256)]"
  by (simp add: numeral_2_eq_2)

lemma ReadVarInt_medium:
  assumes "0xfd \<le> n" "n \<le> 0xffff"
  shows "ReadVarInt (WriteVarInt n @ r) = Inr (n, r)"
proof -
  have w: "WriteVarInt n = 0xfd # le_bytes 2 n" using assms by (simp add: WriteVarInt_def)
  have l: "le_nat (le_bytes 2 n) = n" using assms by (simp add: le_nat_le_bytes)
  have ne: "(0xfd :: byte) \<noteq> 0xff" "(0xfd :: byte) \<noteq> 0xfe" by simp_all
  have rf: "ReadFull 2 (le_bytes 2 n @ r) = Inr (le_bytes 2 n, r)"
    by (rule ReadFull_append) simp
  show ?thesis unfolding w ReadVarInt_def
    using assms by (simp add: andThen_def ret_def ne read_le_def rf l)
qed

lemma ReadVarBytes_WriteVarBytes:
  assumes "length b \<le> maxAllowed" "maxAllowed \<le> 0xffff"
  shows "ReadVarBytes maxAllowed (WriteVarBytes b @ r) = Inr (b, r)"
proof -
  have "ReadVarInt (WriteVarInt (length b) @ (b @ r)) = Inr (length b, b @ r)"
    using assms ReadVarInt_small [of "length b" "b @ r"] ReadVarInt_medium [of "length b" "b @ r"] 
    by (cases "length b < 0xfd") simp_all
  then show ?thesis using assms 
    by (simp add: ReadVarBytes_def WriteVarBytes_def andThen_def ReadFull_append)
qed

lemma word_of_nat_be_nat_be_bytes:
  "LENGTH('a::len) = 8 * n \<Longrightarrow> (of_nat (be_nat (be_bytes n (unat (w :: 'a word)))) :: 'a word) = w"
proof -
  assume a: "LENGTH('a) = 8 * n"
  have "unat w < 2 ^ LENGTH('a)" by (rule unsigned_less)
  also have "(2::nat) ^ LENGTH('a) = 256 ^ n" 
    using a by (simp add: power_mult)
  finally show ?thesis by (simp add: be_nat_be_bytes)
qed

lemma sint16_of_int: "- 32768 \<le> m \<Longrightarrow> m \<le> 32767 \<Longrightarrow> sint (of_int m :: 16 word) = m"
  by (simp add: sint_sbintrunc' signed_take_bit_int_eq_self)

lemma zoneOffsetMin_UTC: "zoneOffsetMin UTC = Inr (- 1)"
  by (simp add: zoneOffsetMin_def)

lemma zoneOffsetMin_Fixed:
  "zoneOffsetMin (FixedZone off) = Inr om \<Longrightarrow>
     off mod 60 = 0 \<and> - 32768 \<le> off div 60 \<and> off div 60 \<noteq> - 1 \<and> off div 60 \<le> 32767
     \<and> om = of_int (off div 60)"
  unfolding zoneOffsetMin_def Location.case
  by (simp split: if_splits)

lemma zoneOffsetMin_roundtrip:
  assumes "zoneOffsetMin l = Inr om"
  shows "(if sint om * 60 = - 60 then UTC else FixedZone (sint om * 60)) = l"
proof (cases l)
  case UTC
  then have "om = - 1" using assms by (simp add: zoneOffsetMin_UTC)
  then show ?thesis using UTC by simp
next
  case (FixedZone off)
  let ?m = "off div 60"
  from zoneOffsetMin_Fixed [of off om] assms FixedZone
  have m: "off mod 60 = 0" "- 32768 \<le> ?m" "?m \<noteq> - 1" "?m \<le> 32767"
    and om: "om = of_int ?m"
    by simp_all
  have s: "sint om = ?m" unfolding om using m by (simp add: sint16_of_int)
  have e: "?m * 60 = off" using m(1) by (simp add: mod_eq_0_iff_dvd)
  have ne: "off \<noteq> - 60"
  proof
    assume "off = - 60"
    then have "?m = - 1" by simp
    then show False using m(3) by simp
  qed
  have "(if off = - 60 then UTC else FixedZone off) = FixedZone off"
    using ne by simp
  then show ?thesis unfolding s e FixedZone .
qed

lemma UnmarshalBinary_MarshalBinary:
  assumes "MarshalBinary t = Inr b"
  shows "UnmarshalBinary b = Inr t" "length b = 15"
proof -
  from assms obtain om where z: "zoneOffsetMin (t_loc t) = Inr om"
    and b: "b = 1 # be_bytes 8 (unat (t_sec t)) @ be_bytes 4 (unat (t_nsec t)) @ be_bytes 2 (unat om)"
    by (auto simp: MarshalBinary_def split: sum.splits)
  show "length b = 15" by (simp add: b)
  have 1: "take 8 (drop 1 b) = be_bytes 8 (unat (t_sec t))" by (simp add: b)
  have 2: "take 4 (drop 9 b) = be_bytes 4 (unat (t_nsec t))" by (simp add: b)
  have 3: "take 2 (drop 13 b) = be_bytes 2 (unat om)" by (simp add: b)
  have l: "length b = 15" "hd b = 1" by (simp_all add: b)
  show "UnmarshalBinary b = Inr t"
    unfolding UnmarshalBinary_def 1 2 3 l
    using zoneOffsetMin_roundtrip [OF z]
    by (simp add: word_of_nat_be_nat_be_bytes Let_def)
qed

lemma read_time_WriteVarBytes:
  assumes "MarshalBinary t = Inr tb"
  shows "read_time (WriteVarBytes tb @ r) = Inr (t, r)"
proof -
  have "length tb \<le> 300" using UnmarshalBinary_MarshalBinary(2) [OF assms] by simp
  then have "ReadVarBytes 300 (WriteVarBytes tb @ r) = Inr (tb, r)"
    by (rule ReadVarBytes_WriteVarBytes) simp
  then show ?thesis
    by (simp add: read_time_def andThen_def UnmarshalBinary_MarshalBinary(1) [OF assms])
qed

lemma read_bytes32_bytes32: "read_bytes32 (bytes32 h @ r) = Inr (h, r)"
proof -
  have "ReadFull 32 (bytes32 h @ r) = Inr (bytes32 h, r)"
    by (rule ReadFull_append) (simp add: bytes32_def)
  then show ?thesis by (simp add: read_bytes32_def andThen_def ret_def)
qed

lemma read_uint64_PutUint64: "read_uint64 (PutUint64 v @ r) = Inr (v, r)"
proof -
  have "ReadFull 8 (PutUint64 v @ r) = Inr (PutUint64 v, r)"
    by (rule ReadFull_append) (simp add: PutUint64_def)
  then show ?thesis by (simp add: read_uint64_def andThen_def ret_def)
qed

lemma read_bool_write_bool: "read_bool (write_bool x @ r) = Inr (x, r)"
  by (simp add: read_bool_def write_bool_def andThen_def ret_def)

lemma deserializeReader_serializeInvoice:
  assumes s: "serializeInvoice H i = Inr b" and w: "withinCeilings i"
  shows "deserializeReader (b @ r) = Inr (storedForm i, r)"
proof -
  from s obtain bb sb ph where
    bb: "MarshalBinary (CreationDate i) = Inr bb" and
    sb: "MarshalBinary (SettleDate i) = Inr sb" and
    ph: "(if ExternalPreimage (Terms i) then getPaymentHash H i else Inr zeroHash) = Inr ph" and
    b: "b = WriteVarBytes (Memo i) @ WriteVarBytes (Receipt i)
               @ WriteVarBytes (PaymentRequest i)
               @ WriteVarBytes bb @ WriteVarBytes sb
               @ bytes32 (PaymentPreimage (Terms i)) @ bytes32 ph
               @ PutUint64 (Value (Terms i)) @ write_bool (Settled (Terms i))
               @ PutUint64 (AddIndex i) @ PutUint64 (SettleIndex i)
               @ PutUint64 (AmtPaid i) @ write_bool (ExternalPreimage (Terms i))"
    unfolding serializeInvoice_def by (simp split: sum.splits)
  have phe: "ExternalPreimage (Terms i) \<Longrightarrow> ph = PaymentHash (Terms i)"
    using ph by (simp add: getPaymentHash_def split: if_splits)
  have m: "\<And>r. ReadVarBytes MaxMemoSize (WriteVarBytes (Memo i) @ r) = Inr (Memo i, r)"
    using w by (intro ReadVarBytes_WriteVarBytes) (simp_all add: withinCeilings_def MaxMemoSize_def)
  have rc: "\<And>r. ReadVarBytes MaxReceiptSize (WriteVarBytes (Receipt i) @ r) = Inr (Receipt i, r)"
    using w by (intro ReadVarBytes_WriteVarBytes) (simp_all add: withinCeilings_def MaxReceiptSize_def)
  have pr: "\<And>r. ReadVarBytes MaxPaymentRequestSize (WriteVarBytes (PaymentRequest i) @ r) = Inr (PaymentRequest i, r)"
    using w by (intro ReadVarBytes_WriteVarBytes) (simp_all add: withinCeilings_def MaxPaymentRequestSize_def)
  have "deserializeReader (b @ r) =
      Inr (\<lparr>Memo = Memo i, Receipt = Receipt i, PaymentRequest = PaymentRequest i,
            CreationDate = CreationDate i, SettleDate = SettleDate i,
            Terms = \<lparr>ExternalPreimage = ExternalPreimage (Terms i),
                     PaymentHash = (if \<not> ExternalPreimage (Terms i) then zeroHash else ph),
                     PaymentPreimage = PaymentPreimage (Terms i), Value = Value (Terms i), Settled = Settled (Terms i)\<rparr>,
            AddIndex = AddIndex i, SettleIndex = SettleIndex i,
            AmtPaid = AmtPaid i\<rparr>, r)"
    unfolding b deserializeReader_def append_assoc
    by (simp add: andThen_def m rc pr read_time_WriteVarBytes [OF bb]
          read_time_WriteVarBytes [OF sb] read_bytes32_bytes32 read_uint64_PutUint64
          read_bool_write_bool ret_def)
  also have "\<dots> = Inr (storedForm i, r)"
    using phe by (cases i; cases "Terms i") (simp add: storedForm_def)
  finally show ?thesis .
qed

lemma andThenE:
  assumes "andThen m f r = Inr y"
  obtains a r' where "m r = Inr (a, r')" "f a r' = Inr y"
  using assms by (auto simp: andThen_def split: sum.splits)

lemma ReadFull_length: "ReadFull n r = Inr (b, r') \<Longrightarrow> length b = n"
  by (auto simp: ReadFull_def split: if_splits)

lemma ReadVarBytes_length: "ReadVarBytes m r = Inr (b, r') \<Longrightarrow> length b \<le> m"
  unfolding ReadVarBytes_def
  by (erule andThenE) (auto split: if_splits dest: ReadFull_length)

lemma sint16_range: "- 32768 \<le> sint (w :: 16 word)" "sint (w :: 16 word) \<le> 32767"
  using sint_ge [of w] sint_lt [of w] by simp_all

lemma UnmarshalBinary_encodable:
  assumes "UnmarshalBinary b = Inr t"
  shows "timeEncodable t"
proof -
  define w :: "16 word" where "w = of_nat (be_nat (take 2 (drop 13 b)))"
  have l: "t_loc t = (if sint w * 60 = - 60 then UTC else FixedZone (sint w * 60))"
    using assms unfolding UnmarshalBinary_def Let_def w_def
    by (auto split: if_splits)
  have "\<exists>om. zoneOffsetMin (t_loc t) = Inr om"
  proof (cases "sint w * 60 = - 60")
    case True
    then show ?thesis using l by (simp add: zoneOffsetMin_def)
  next
    case False
    then have "sint w \<noteq> - 1" by auto
    then show ?thesis using l False sint16_range [of w]
      by (simp add: zoneOffsetMin_def)
  qed
  then show ?thesis by (auto simp: timeEncodable_def MarshalBinary_def)
qed

lemma read_time_encodable: "read_time r = Inr (t, r') \<Longrightarrow> timeEncodable t"
  unfolding read_time_def
  by (erule andThenE) (auto split: sum.splits dest: UnmarshalBinary_encodable)

lemma deserializeReader_stored:
  assumes "deserializeReader b = Inr (iv, r)"
  shows "withinCeilings iv \<and> timeEncodable (CreationDate iv)
         \<and> timeEncodable (SettleDate iv) \<and> storedForm iv = iv"
  using assms unfolding deserializeReader_def
  apply (elim andThenE)
  apply (drule ReadVarBytes_length)+
  apply (drule read_time_encodable)+
  apply (auto simp: ret_def withinCeilings_def storedForm_def)
  done

section \<open>Records in the store\<close>

lemma Get_Put: "Get (Put k v es) k' = (if k' = k then Some v else Get es k')"
  by (induction es) (auto simp: Get_def)

lemma timeEncodable_iff: "timeEncodable t \<longleftrightarrow> (\<exists>b. MarshalBinary t = Inr b)"
  by (auto simp: timeEncodable_def split: sum.splits)

lemma serializeInvoice_ok:
  assumes "timeEncodable (CreationDate i)" "timeEncodable (SettleDate i)"
    "ExternalPreimage (Terms i) \<longrightarrow> PaymentHash (Terms i) \<noteq> zeroHash"
  shows "\<exists>b. serializeInvoice H i = Inr b"
proof -
  from assms(1,2) obtain bb sb where
    "MarshalBinary (CreationDate i) = Inr bb" "MarshalBinary (SettleDate i) = Inr sb"
    by (auto simp: timeEncodable_iff)
  then show ?thesis using assms(3)
    by (simp add: serializeInvoice_def getPaymentHash_def)
qed

lemma deserializeInvoice_serializeInvoice:
  assumes "serializeInvoice H i = Inr b" "withinCeilings i"
  shows "deserializeInvoice b = Inr (storedForm i)"
  using deserializeReader_serializeInvoice [OF assms, of "[]"]
  by (simp add: deserializeInvoice_def)

lemma deserializeInvoice_stored:
  assumes "deserializeInvoice b = Inr iv"
  shows "withinCeilings iv" "timeEncodable (CreationDate iv)"
        "timeEncodable (SettleDate iv)" "storedForm iv = iv"
proof -
  from assms obtain r where "deserializeReader b = Inr (iv, r)"
    by (auto simp: deserializeInvoice_def split: sum.splits)
  from deserializeReader_stored [OF this]
  show "withinCeilings iv" "timeEncodable (CreationDate iv)"
        "timeEncodable (SettleDate iv)" "storedForm iv = iv" by simp_all
qed

lemma fetchInvoice_stored:
  assumes "fetchInvoice k es = Inr iv"
  shows "withinCeilings iv" "timeEncodable (CreationDate iv)"
        "timeEncodable (SettleDate iv)" "storedForm iv = iv"
proof -
  from assms obtain b where "deserializeInvoice b = Inr iv"
    by (auto simp: fetchInvoice_def split: option.splits)
  from deserializeInvoice_stored [OF this]
  show "withinCeilings iv" "timeEncodable (CreationDate iv)"
        "timeEncodable (SettleDate iv)" "storedForm iv = iv" by simp_all
qed

lemma fetchInvoice_Put:
  assumes "serializeInvoice H i = Inr b" "withinCeilings i"
  shows "fetchInvoice k (Put k b es) = Inr (storedForm i)"
  by (simp add: fetchInvoice_def Get_Put deserializeInvoice_serializeInvoice [OF assms])

lemma LookupInvoice_InrE:
  assumes "LookupInvoice d h = Inr iv"
  obtains ib ix k where "d = Some ib" "invoiceIndexBucket ib = Some ix"
    "Get (entries ix) (bytes32 h) = Some k" "fetchInvoice k (invoiceRecords ib) = Inr iv"
  using assms by (auto simp: LookupInvoice_def split: option.splits)

text \<open>Writing back a stored invoice with some fields changed.\<close>

lemma restore_fetch:
  assumes f: "fetchInvoice k es = Inr iv"
    and w: "withinCeilings iv'" and c: "timeEncodable (CreationDate iv')"
    and s: "timeEncodable (SettleDate iv')"
    and e: "ExternalPreimage (Terms iv') \<longrightarrow> PaymentHash (Terms iv') \<noteq> zeroHash"
    and st: "storedForm iv' = iv'"
  shows "\<exists>b. serializeInvoice H iv' = Inr b \<and> fetchInvoice k (Put k b es) = Inr iv'"
proof -
  from serializeInvoice_ok [OF c s e] obtain b where b: "serializeInvoice H iv' = Inr b" ..
  from fetchInvoice_Put [OF b w] st show ?thesis using b by auto
qed

lemma AddInvoicePreimage_pending:
  assumes l: "LookupInvoice d h = Inr iv"
    and x: "ExternalPreimage (Terms iv)"
    and z: "PaymentPreimage (Terms iv) = zeroPreimage"
    and nz: "PaymentHash (Terms iv) \<noteq> zeroHash"
  shows "\<exists>d'. AddInvoicePreimage H d h p = (Inr (), d')
           \<and> LookupInvoice d' h = Inr (iv\<lparr>Terms := (Terms iv)\<lparr>PaymentPreimage := p\<rparr>\<rparr>)"
proof -
  let ?iv' = "iv\<lparr>Terms := (Terms iv)\<lparr>PaymentPreimage := p\<rparr>\<rparr>"
  from l obtain ib ix k where d: "d = Some ib" and ix: "invoiceIndexBucket ib = Some ix"
    and g: "Get (entries ix) (bytes32 h) = Some k"
    and f: "fetchInvoice k (invoiceRecords ib) = Inr iv"
    by (rule LookupInvoice_InrE)
  note st = fetchInvoice_stored [OF f]
  have "\<exists>b. serializeInvoice H ?iv' = Inr b \<and> fetchInvoice k (Put k b (invoiceRecords ib)) = Inr ?iv'"
    using st x nz by (intro restore_fetch [OF f]) (simp_all add: withinCeilings_def storedForm_def)
  then obtain b where b: "serializeInvoice H ?iv' = Inr b"
    and fb: "fetchInvoice k (Put k b (invoiceRecords ib)) = Inr ?iv'" by blast
  have a: "addInvoicePreimage H (invoiceRecords ib) k p = Inr (Put k b (invoiceRecords ib))"
    using f x z b by (simp add: addInvoicePreimage_def)
  have "AddInvoicePreimage H d h p =
      (Inr (), Some (ib\<lparr>invoiceRecords := Put k b (invoiceRecords ib), invoiceIndexBucket := Some ix\<rparr>))"
    by (simp add: AddInvoicePreimage_def Update_def addInvoicePreimageTx_def d ix g a
        createInvoiceBucket_def CreateBucketIfNotExists_def)
  moreover have "LookupInvoice (Some (ib\<lparr>invoiceRecords := Put k b (invoiceRecords ib), invoiceIndexBucket := Some ix\<rparr>)) h = Inr ?iv'"
    by (simp add: LookupInvoice_def g fb)
  ultimately show ?thesis by blast
qed

section \<open>Adding invoices\<close>

lemma AddInvoice_duplicate:
  assumes "validateInvoice i = None" "getPaymentHash H i = Inr h" "hashIndexed d h"
  shows "AddInvoice H d i = (Inl ErrDuplicateInvoice, d)"
proof -
  from assms(3) obtain ib ix where d: "d = Some ib" and ix: "invoiceIndexBucket ib = Some ix"
    and g: "Get (entries ix) (bytes32 h) \<noteq> None"
    by (auto simp: hashIndexed_def split: option.splits)
  show ?thesis
    using assms(1,2) g
    by (simp add: AddInvoice_def Update_def addInvoiceTx_def d ix createInvoiceBucket_def
        CreateBucketIfNotExists_def)
qed

lemma putInvoice_Inr:
  assumes "putInvoice H recs ix ai i n = Inr (idx, recs', ix', ai')"
  shows "\<exists>h. getPaymentHash H i = Inr h \<and> Get (entries ix') (bytes32 h) = Some (PutUint32 n)
          \<and> sequence ai' = sequence ai + 1"
  using assms
  by (auto simp: putInvoice_def Let_def BPut_def Get_Put NextSequence_def
      split: sum.splits)

lemma AddInvoice_indexes:
  assumes a: "AddInvoice H d i = (Inr idx, d')" and h: "getPaymentHash H i = Inr h"
  shows "hashIndexed d' h"
proof -
  from a have v: "validateInvoice i = None" and u: "addInvoiceTx H i d = Inr (idx, d')"
    by (auto simp: AddInvoice_def Update_def split: option.splits sum.splits)
  from u obtain recs ix ai n ib recs' ix' ai' where
    p: "putInvoice H recs ix ai i n = Inr (idx, recs', ix', ai')"
    and d': "d' = Some (ib\<lparr>invoiceRecords := recs', invoiceIndexBucket := Some ix', addIndexBucket := Some ai'\<rparr>)"
    unfolding addInvoiceTx_def Let_def
    by (auto split: sum.splits if_splits prod.splits)
  from putInvoice_Inr [OF p] h show ?thesis
    by (auto simp: hashIndexed_def d')
qed


lemma hashIndexed_create:
  "hashIndexed d h \<longleftrightarrow>
     Get (entries (CreateBucketIfNotExists (invoiceIndexBucket (createInvoiceBucket d)))) (bytes32 h) \<noteq> None"
  by (auto simp: hashIndexed_def createInvoiceBucket_def CreateBucketIfNotExists_def
      emptyInvoiceBucket_def emptyBucket_def Get_def split: option.splits)

lemma addSequence_create:
  "addSequence d = sequence (CreateBucketIfNotExists (addIndexBucket (createInvoiceBucket d)))"
  by (auto simp: addSequence_def createInvoiceBucket_def CreateBucketIfNotExists_def
      emptyInvoiceBucket_def emptyBucket_def split: option.splits)

lemma counterReadable_create:
  "counterReadable d \<Longrightarrow>
     Get (entries (CreateBucketIfNotExists (invoiceIndexBucket (createInvoiceBucket d)))) numInvoicesKey = Some c
     \<Longrightarrow> 4 \<le> length c"
  by (auto simp: counterReadable_def createInvoiceBucket_def CreateBucketIfNotExists_def
      emptyInvoiceBucket_def emptyBucket_def Get_def split: option.splits)

lemma getPaymentHash_external:
  "getPaymentHash H i = Inr h \<Longrightarrow> ExternalPreimage (Terms i) \<longrightarrow> PaymentHash (Terms i) \<noteq> zeroHash"
  by (auto simp: getPaymentHash_def split: if_splits)

lemma validateInvoice_None: "validateInvoice i = None \<longleftrightarrow> withinCeilings i"
  by (auto simp: validateInvoice_def withinCeilings_def)

lemma length_bytes32 [simp]: "length (bytes32 h) = 32"
  by (simp add: bytes32_def)

lemma bytes32_neq_numInvoicesKey [simp]: "bytes32 h \<noteq> numInvoicesKey" "numInvoicesKey \<noteq> bytes32 h"
proof -
  show "bytes32 h \<noteq> numInvoicesKey"
  proof
    assume "bytes32 h = numInvoicesKey"
    then have "length (bytes32 h) = length numInvoicesKey" by simp
    then show False by (simp add: numInvoicesKey_def)
  qed
  then show "numInvoicesKey \<noteq> bytes32 h" by (rule not_sym)
qed

lemma AddInvoice_stores:
  assumes v: "validateInvoice i = None" and h: "getPaymentHash H i = Inr h"
    and n: "\<not> hashIndexed d h" and c: "counterReadable d"
    and tc: "timeEncodable (CreationDate i)" and ts: "timeEncodable (SettleDate i)"
  shows "fst (AddInvoice H d i) = Inr (addSequence d + 1)"
    and "LookupInvoice (snd (AddInvoice H d i)) h = Inr (storedForm (i\<lparr>AddIndex := addSequence d + 1\<rparr>))"
    and "addSequence (snd (AddInvoice H d i)) = addSequence d + 1"
    and "settleSequence (snd (AddInvoice H d i)) = settleSequence d"
proof -
  define ib where "ib = createInvoiceBucket d"
  define ix where "ix = CreateBucketIfNotExists (invoiceIndexBucket ib)"
  define ai where "ai = CreateBucketIfNotExists (addIndexBucket ib)"
  let ?i' = "i\<lparr>AddIndex := sequence ai + 1\<rparr>"
  have sq: "addSequence d = sequence ai" by (simp add: addSequence_create ai_def ib_def)
  have g: "Get (entries ix) (bytes32 h) = None"
    using n by (simp add: hashIndexed_create ix_def ib_def)
  obtain num ix1 where cnt: "(case Get (entries ix) numInvoicesKey of
                       None \<Rightarrow> Inr (0, BPut numInvoicesKey (PutUint32 0) ix)
                     | Some invoiceCounter \<Rightarrow>
                         (case readCounter invoiceCounter of
                            Inl e \<Rightarrow> Inl e
                          | Inr n \<Rightarrow> Inr (n, ix))) = Inr (num, ix1)"
  proof (cases "Get (entries ix) numInvoicesKey")
    case None
    then show ?thesis using that by simp
  next
    case (Some cv)
    then have "4 \<le> length cv" using counterReadable_create [OF c] by (simp add: ix_def ib_def)
    then show ?thesis using that Some by (simp add: readCounter_def)
  qed
  have "\<exists>b. serializeInvoice H ?i' = Inr b"
    using tc ts getPaymentHash_external [OF h]
    by (intro serializeInvoice_ok) simp_all
  then obtain b where b: "serializeInvoice H ?i' = Inr b" ..
  have w: "withinCeilings ?i'" using v by (simp add: validateInvoice_None withinCeilings_def)
  define ix' where "ix' = BPut (bytes32 h) (PutUint32 num) (BPut numInvoicesKey (PutUint32 (num + 1)) ix1)"
  define ai' where "ai' = BPut (PutUint64 (sequence ai + 1)) (PutUint32 num) (ai\<lparr>sequence := sequence ai + 1\<rparr>)"
  have p: "putInvoice H (invoiceRecords ib) ix1 ai i num =
      Inr (sequence ai + 1, Put (PutUint32 num) b (invoiceRecords ib), ix', ai')"
    by (simp add: putInvoice_def Let_def h NextSequence_def b ix'_def ai'_def)
  define d' where "d' = Some (ib\<lparr>invoiceRecords := Put (PutUint32 num) b (invoiceRecords ib),
        invoiceIndexBucket := Some ix', addIndexBucket := Some ai'\<rparr>)"
  have tx: "addInvoiceTx H i d = Inr (sequence ai + 1, d')"
    unfolding addInvoiceTx_def Let_def
    unfolding ib_def [symmetric]
    unfolding ix_def [symmetric] ai_def [symmetric]
    by (simp add: h g cnt p d'_def)
  have A: "AddInvoice H d i = (Inr (sequence ai + 1), d')"
    by (simp add: AddInvoice_def v Update_def tx)
  show "fst (AddInvoice H d i) = Inr (addSequence d + 1)" by (simp add: A sq)
  have "Get (entries ix') (bytes32 h) = Some (PutUint32 num)"
    by (simp add: ix'_def BPut_def Get_Put)
  moreover have "fetchInvoice (PutUint32 num) (Put (PutUint32 num) b (invoiceRecords ib)) = Inr (storedForm ?i')"
    by (rule fetchInvoice_Put [OF b w])
  ultimately show "LookupInvoice (snd (AddInvoice H d i)) h = Inr (storedForm (i\<lparr>AddIndex := addSequence d + 1\<rparr>))"
    by (simp add: A sq LookupInvoice_def d'_def)
  have "addSequence d' = sequence ai + 1"
    by (simp add: addSequence_def d'_def ai'_def BPut_def)
  then show "addSequence (snd (AddInvoice H d i)) = addSequence d + 1"
    by (simp add: A sq)
  have "settleSequence d' = settleSequence d"
    by (simp add: settleSequence_def d'_def ib_def createInvoiceBucket_def emptyInvoiceBucket_def
        split: option.splits)
  then show "settleSequence (snd (AddInvoice H d i)) = settleSequence d"
    by (simp add: A)
qed

section \<open>Settling invoices\<close>

lemma storedForm_eq_iff:
  "storedForm i = i \<longleftrightarrow> (\<not> ExternalPreimage (Terms i) \<longrightarrow> PaymentHash (Terms i) = zeroHash)"
  by (cases i; cases "Terms i") (auto simp: storedForm_def)

lemma SettleInvoice_settled_explicit:
  assumes d: "d = Some ib" and ix: "invoiceIndexBucket ib = Some ix"
    and g: "Get (entries ix) (bytes32 h) = Some k"
    and f: "fetchInvoice k (invoiceRecords ib) = Inr iv"
    and s: "Settled (Terms iv)"
  shows "SettleInvoice H d h amt now =
     (Inr iv, Some (ib\<lparr>settleIndexBucket := Some (CreateBucketIfNotExists (settleIndexBucket ib))\<rparr>))"
proof -
  have "settleInvoice H (invoiceRecords ib) (CreateBucketIfNotExists (settleIndexBucket ib)) k amt now
      = Inr (iv, invoiceRecords ib, CreateBucketIfNotExists (settleIndexBucket ib))"
    by (simp add: settleInvoice_def f s)
  then show ?thesis
    by (simp add: SettleInvoice_def Update_def settleInvoiceTx_def d ix g
        createInvoiceBucket_def CreateBucketIfNotExists_def)
qed

lemma SettleInvoice_settled:
  assumes l: "LookupInvoice d h = Inr iv" and s: "Settled (Terms iv)"
  shows "fst (SettleInvoice H d h amt now) = Inr iv"
    and "LookupInvoice (snd (SettleInvoice H d h amt now)) h = Inr iv"
    and "settleSequence (snd (SettleInvoice H d h amt now)) = settleSequence d"
    and "settleEntries (snd (SettleInvoice H d h amt now)) = settleEntries d"
    and "recordsOf (snd (SettleInvoice H d h amt now)) = recordsOf d"
proof -
  from l obtain ib ix k where d: "d = Some ib" and ix: "invoiceIndexBucket ib = Some ix"
    and g: "Get (entries ix) (bytes32 h) = Some k"
    and f: "fetchInvoice k (invoiceRecords ib) = Inr iv"
    by (rule LookupInvoice_InrE)
  define d' where "d' = Some (ib\<lparr>settleIndexBucket := Some (CreateBucketIfNotExists (settleIndexBucket ib))\<rparr>)"
  have e: "SettleInvoice H d h amt now = (Inr iv, d')"
    unfolding d'_def by (rule SettleInvoice_settled_explicit [OF d ix g f s])
  show "fst (SettleInvoice H d h amt now) = Inr iv" by (simp add: e)
  have "LookupInvoice d' h = Inr iv"
    by (simp add: d'_def LookupInvoice_def ix g f)
  then show "LookupInvoice (snd (SettleInvoice H d h amt now)) h = Inr iv"
    by (simp add: e)
  have "settleSequence d' = settleSequence d"
    by (simp add: d'_def settleSequence_def d CreateBucketIfNotExists_def emptyBucket_def
        split: option.splits)
  then show "settleSequence (snd (SettleInvoice H d h amt now)) = settleSequence d"
    by (simp add: e)
  have "settleEntries d' = settleEntries d"
    by (simp add: d'_def settleEntries_def d CreateBucketIfNotExists_def emptyBucket_def
        split: option.splits)
  then show "settleEntries (snd (SettleInvoice H d h amt now)) = settleEntries d"
    by (simp add: e)
  have "recordsOf d' = recordsOf d"
    by (simp add: d'_def recordsOf_def d)
  then show "recordsOf (snd (SettleInvoice H d h amt now)) = recordsOf d"
    by (simp add: e)
qed

lemma SettleInvoice_first_result:
  assumes l: "LookupInvoice d h = Inr iv" and s: "\<not> Settled (Terms iv)"
    and r: "SettleInvoice H d h amt now = (Inr iv1, d1)"
  shows "iv1 = iv\<lparr>AmtPaid := amt, Terms := (Terms iv)\<lparr>Settled := True\<rparr>,
                  SettleDate := now, SettleIndex := settleSequence d + 1\<rparr>"
    and "LookupInvoice d1 h = Inr iv1"
    and "settleSequence d1 = settleSequence d + 1"
    and "\<exists>ib sb. d1 = Some ib \<and> settleIndexBucket ib = Some sb"
proof -
  from l obtain ib ix k where d: "d = Some ib" and ix: "invoiceIndexBucket ib = Some ix"
    and g: "Get (entries ix) (bytes32 h) = Some k"
    and f: "fetchInvoice k (invoiceRecords ib) = Inr iv"
    by (rule LookupInvoice_InrE)
  define sb where "sb = CreateBucketIfNotExists (settleIndexBucket ib)"
  have sq: "settleSequence d = sequence sb"
    by (simp add: settleSequence_def d sb_def CreateBucketIfNotExists_def emptyBucket_def
        split: option.splits)
  let ?iv' = "iv\<lparr>AmtPaid := amt, Terms := (Terms iv)\<lparr>Settled := True\<rparr>,
                  SettleDate := now, SettleIndex := sequence sb + 1\<rparr>"
  define sb' where "sb' = BPut (PutUint64 (sequence sb + 1)) k (sb\<lparr>sequence := sequence sb + 1\<rparr>)"
  have si: "settleInvoice H (invoiceRecords ib) sb k amt now =
       (case serializeInvoice H ?iv' of Inl e \<Rightarrow> Inl e
        | Inr buf \<Rightarrow> Inr (?iv', Put k buf (invoiceRecords ib), sb'))"
    by (simp add: settleInvoice_def f s NextSequence_def Let_def sb'_def split: sum.splits)
  have tx: "SettleInvoice H d h amt now =
       (case serializeInvoice H ?iv' of Inl e \<Rightarrow> (Inl e, d)
        | Inr buf \<Rightarrow> (Inr ?iv', Some (ib\<lparr>invoiceRecords := Put k buf (invoiceRecords ib),
                               invoiceIndexBucket := Some ix, settleIndexBucket := Some sb'\<rparr>)))"
    unfolding SettleInvoice_def Update_def settleInvoiceTx_def Let_def
    by (simp add: d ix g createInvoiceBucket_def sb_def [symmetric] si
        CreateBucketIfNotExists_def [of "Some ix"] split: sum.splits)
  from r tx obtain buf where b: "serializeInvoice H ?iv' = Inr buf"
    and iv1: "iv1 = ?iv'"
    and d1: "d1 = Some (ib\<lparr>invoiceRecords := Put k buf (invoiceRecords ib),
                               invoiceIndexBucket := Some ix, settleIndexBucket := Some sb'\<rparr>)"
    by (auto split: sum.splits)
  note st = fetchInvoice_stored [OF f]
  have w: "withinCeilings ?iv'" using st(1) by (simp add: withinCeilings_def)
  have sf: "storedForm ?iv' = ?iv'" using st(4) by (simp add: storedForm_eq_iff)
  show "iv1 = iv\<lparr>AmtPaid := amt, Terms := (Terms iv)\<lparr>Settled := True\<rparr>,
                  SettleDate := now, SettleIndex := settleSequence d + 1\<rparr>"
    by (simp add: iv1 sq)
  have "fetchInvoice k (Put k buf (invoiceRecords ib)) = Inr ?iv'"
    using fetchInvoice_Put [OF b w] sf by simp
  then show "LookupInvoice d1 h = Inr iv1"
    by (simp add: d1 LookupInvoice_def g iv1)
  have "settleSequence d1 = sequence sb + 1"
    by (simp add: d1 settleSequence_def sb'_def BPut_def)
  then show "settleSequence d1 = settleSequence d + 1"
    by (simp add: sq)
  show "\<exists>ib sb. d1 = Some ib \<and> settleIndexBucket ib = Some sb"
    by (simp add: d1)
qed

section \<open>The example ledgers\<close>

lemma timeEncodable_examples [simp]: "timeEncodable exampleTime" "timeEncodable zeroTime"
  by (simp_all add: timeEncodable_def MarshalBinary_def zoneOffsetMin_def exampleTime_def zeroTime_def)

lemma fresh_ledger [simp]: "\<not> hashIndexed None h" "counterReadable None" "addSequence None = 0"
  "settleSequence None = 0"
  by (simp_all add: hashIndexed_def counterReadable_def addSequence_def settleSequence_def)

lemma invoiceB_facts:
  "validateInvoice invoiceB = None" "getPaymentHash H invoiceB = Inr 7"
  "storedForm (invoiceB\<lparr>AddIndex := 1\<rparr>) = invoiceB\<lparr>AddIndex := 1\<rparr>"
  by (simp_all add: invoiceB_def validateInvoice_def getPaymentHash_def zeroHash_def
      MaxMemoSize_def MaxReceiptSize_def MaxPaymentRequestSize_def storedForm_def)

lemma Lookup_ledgerB: "LookupInvoice ledgerB 7 = Inr (invoiceB\<lparr>AddIndex := 1\<rparr>)"
  using AddInvoice_stores(2) [of invoiceB exampleSum256 7 None]
  by (simp add: invoiceB_facts ledgerB_def) (simp add: invoiceB_def)

lemma invoiceA_facts:
  "validateInvoice invoiceA = None" "getPaymentHash exampleSum256 invoiceA = Inr 4"
  "storedForm (invoiceA\<lparr>AddIndex := 1\<rparr>) = invoiceA\<lparr>AddIndex := 1\<rparr>"
  by (simp_all add: invoiceA_def validateInvoice_def getPaymentHash_def zeroPreimage_def
      MaxMemoSize_def MaxReceiptSize_def MaxPaymentRequestSize_def storedForm_def
      exampleSum256_def zeroHash_def)

lemma Lookup_ledgerA: "LookupInvoice ledgerA 4 = Inr (invoiceA\<lparr>AddIndex := 1\<rparr>)"
  using AddInvoice_stores(2) [of invoiceA exampleSum256 4 None]
  by (simp add: invoiceA_facts ledgerA_def) (simp add: invoiceA_def)

section \<open>Preimage disclosure\<close>

lemma AddInvoicePreimage_already_set:
  assumes l: "LookupInvoice d h = Inr iv" and x: "ExternalPreimage (Terms iv)"
    and nz: "PaymentPreimage (Terms iv) \<noteq> zeroPreimage"
  shows "AddInvoicePreimage H d h q = (Inl ErrPreimageAlreadySet, d)"
proof -
  from l obtain ib ix k where d: "d = Some ib" and ix: "invoiceIndexBucket ib = Some ix"
    and g: "Get (entries ix) (bytes32 h) = Some k"
    and f: "fetchInvoice k (invoiceRecords ib) = Inr iv"
    by (rule LookupInvoice_InrE)
  have "addInvoicePreimage H (invoiceRecords ib) k q = Inl ErrPreimageAlreadySet"
    using f x nz by (auto simp: addInvoicePreimage_def)
  then show ?thesis
    by (simp add: AddInvoicePreimage_def Update_def addInvoicePreimageTx_def d ix g
        createInvoiceBucket_def CreateBucketIfNotExists_def)
qed

lemma AddInvoicePreimage_not_external:
  assumes l: "LookupInvoice d h = Inr iv" and x: "\<not> ExternalPreimage (Terms iv)"
  shows "AddInvoicePreimage H d h q = (Inl ErrNotExternalPreimage, d)"
proof -
  from l obtain ib ix k where d: "d = Some ib" and ix: "invoiceIndexBucket ib = Some ix"
    and g: "Get (entries ix) (bytes32 h) = Some k"
    and f: "fetchInvoice k (invoiceRecords ib) = Inr iv"
    by (rule LookupInvoice_InrE)
  have "addInvoicePreimage H (invoiceRecords ib) k q = Inl ErrNotExternalPreimage"
    using f x by (simp add: addInvoicePreimage_def)
  then show ?thesis
    by (simp add: AddInvoicePreimage_def Update_def addInvoicePreimageTx_def d ix g
        createInvoiceBucket_def CreateBucketIfNotExists_def)
qed

lemma AddInvoicePreimage_pending_fst_snd:
  assumes "LookupInvoice d h = Inr iv" "ExternalPreimage (Terms iv)"
    "PaymentPreimage (Terms iv) = zeroPreimage" "PaymentHash (Terms iv) \<noteq> zeroHash"
  shows "fst (AddInvoicePreimage H d h p) = Inr ()"
    and "LookupInvoice (snd (AddInvoicePreimage H d h p)) h
           = Inr (iv\<lparr>Terms := (Terms iv)\<lparr>PaymentPreimage := p\<rparr>\<rparr>)"
  using AddInvoicePreimage_pending [OF assms, of H p] by auto

text \<open>
  C10.  \<open>AddInvoicePreimage\<close> does not compare the hash of the supplied preimage with the
  payment hash: on a stored external-preimage invoice whose preimage is all-zero (and
  whose payment hash is the non-zero hash every stored external invoice has), the call
  succeeds for every preimage \<open>p\<close> and every hash function, a following \<open>LookupInvoice\<close>
  returns the invoice with preimage \<open>p\<close>, and with an all-zero \<open>p\<close> the call succeeds and
  the invoice read back is the same pending invoice.
\<close>

theorem AddInvoicePreimage_unverified:
  "LookupInvoice d h = Inr iv \<and> ExternalPreimage (Terms iv)
     \<and> PaymentPreimage (Terms iv) = zeroPreimage \<and> PaymentHash (Terms iv) \<noteq> zeroHash
   \<longrightarrow>
     fst (AddInvoicePreimage H d h p) = Inr ()
     \<and> LookupInvoice (snd (AddInvoicePreimage H d h p)) h
           = Inr (iv\<lparr>Terms := (Terms iv)\<lparr>PaymentPreimage := p\<rparr>\<rparr>)
     \<and> fst (AddInvoicePreimage H d h zeroPreimage) = Inr ()
     \<and> LookupInvoice (snd (AddInvoicePreimage H d h zeroPreimage)) h = Inr iv"
proof (intro impI)
  assume a: "LookupInvoice d h = Inr iv \<and> ExternalPreimage (Terms iv)
     \<and> PaymentPreimage (Terms iv) = zeroPreimage \<and> PaymentHash (Terms iv) \<noteq> zeroHash"
  then have l: "LookupInvoice d h = Inr iv" and x: "ExternalPreimage (Terms iv)"
    and z: "PaymentPreimage (Terms iv) = zeroPreimage" and nz: "PaymentHash (Terms iv) \<noteq> zeroHash"
    by simp_all
  have same: "iv\<lparr>Terms := (Terms iv)\<lparr>PaymentPreimage := zeroPreimage\<rparr>\<rparr> = iv"
    using z by (cases iv; cases "Terms iv") simp
  show "fst (AddInvoicePreimage H d h p) = Inr ()
     \<and> LookupInvoice (snd (AddInvoicePreimage H d h p)) h
           = Inr (iv\<lparr>Terms := (Terms iv)\<lparr>PaymentPreimage := p\<rparr>\<rparr>)
     \<and> fst (AddInvoicePreimage H d h zeroPreimage) = Inr ()
     \<and> LookupInvoice (snd (AddInvoicePreimage H d h zeroPreimage)) h = Inr iv"
    using AddInvoicePreimage_pending_fst_snd [OF l x z nz, of H p]
      AddInvoicePreimage_pending_fst_snd [OF l x z nz, of H zeroPreimage] same
    by simp
qed

theorem AddInvoicePreimage_unverified_witness:
  "LookupInvoice ledgerB 7 = Inr (invoiceB\<lparr>AddIndex := 1\<rparr>)
   \<and> ExternalPreimage (Terms (invoiceB\<lparr>AddIndex := 1\<rparr>))
   \<and> PaymentPreimage (Terms (invoiceB\<lparr>AddIndex := 1\<rparr>)) = zeroPreimage
   \<and> PaymentHash (Terms (invoiceB\<lparr>AddIndex := 1\<rparr>)) \<noteq> zeroHash
   \<and> exampleSum256 5 \<noteq> 7
   \<and> fst (AddInvoicePreimage exampleSum256 ledgerB 7 5) = Inr ()
   \<and> LookupInvoice (snd (AddInvoicePreimage exampleSum256 ledgerB 7 5)) 7
        = Inr (invoiceB\<lparr>AddIndex := 1,
                 Terms := (Terms invoiceB)\<lparr>PaymentPreimage := 5\<rparr>\<rparr>)"
proof -
  have h: "LookupInvoice ledgerB 7 = Inr (invoiceB\<lparr>AddIndex := 1\<rparr>)
     \<and> ExternalPreimage (Terms (invoiceB\<lparr>AddIndex := 1\<rparr>))
     \<and> PaymentPreimage (Terms (invoiceB\<lparr>AddIndex := 1\<rparr>)) = zeroPreimage
     \<and> PaymentHash (Terms (invoiceB\<lparr>AddIndex := 1\<rparr>)) \<noteq> zeroHash"
    by (simp add: Lookup_ledgerB) (simp add: invoiceB_def zeroPreimage_def zeroHash_def)
  have e: "exampleSum256 5 \<noteq> 7" by (simp add: exampleSum256_def)
  show ?thesis
    using h e AddInvoicePreimage_unverified [of ledgerB 7 "invoiceB\<lparr>AddIndex := 1\<rparr>" exampleSum256 5]
    by simp
qed

section \<open>Write-once preimage, idempotent settlement, codec round trip\<close>

text \<open>
  C2, as stated, fails: an all-zero preimage may be supplied, the call succeeds and the
  invoice stays pending, so a second call succeeds as well.
\<close>

theorem AddInvoicePreimage_twice_counterexample:
  "fst (AddInvoicePreimage exampleSum256 ledgerB 7 0) = Inr ()
   \<and> fst (AddInvoicePreimage exampleSum256
             (snd (AddInvoicePreimage exampleSum256 ledgerB 7 0)) 7 5) = Inr ()"
proof -
  let ?iv = "invoiceB\<lparr>AddIndex := 1\<rparr>"
  have x: "ExternalPreimage (Terms ?iv)" and z: "PaymentPreimage (Terms ?iv) = zeroPreimage"
    and nz: "PaymentHash (Terms ?iv) \<noteq> zeroHash"
    by (simp_all add: invoiceB_def zeroPreimage_def zeroHash_def)
  note first = AddInvoicePreimage_pending_fst_snd [OF Lookup_ledgerB x z nz, of exampleSum256 0]
  let ?d1 = "snd (AddInvoicePreimage exampleSum256 ledgerB 7 0)"
  let ?iv1 = "?iv\<lparr>Terms := (Terms ?iv)\<lparr>PaymentPreimage := 0\<rparr>\<rparr>"
  have x1: "ExternalPreimage (Terms ?iv1)" and z1: "PaymentPreimage (Terms ?iv1) = zeroPreimage"
    and nz1: "PaymentHash (Terms ?iv1) \<noteq> zeroHash"
    by (simp_all add: invoiceB_def zeroPreimage_def zeroHash_def)
  from AddInvoicePreimage_pending_fst_snd(1) [OF first(2) x1 z1 nz1, of exampleSum256 5] first(1)
  show ?thesis by simp
qed

text \<open>
  C2, amended.  For a stored external-preimage invoice with all-zero preimage (and the
  non-zero payment hash of every stored external invoice), a call of
  \<open>AddInvoicePreimage\<close> with a non-zero preimage \<open>p\<close> succeeds and the invoice read back
  carries \<open>p\<close>; every later call on that hash, whatever its preimage, fails with the
  ledger unchanged; and every call against an invoice that is not external fails with the
  ledger unchanged.
\<close>

theorem AddInvoicePreimage_write_once:
  "(LookupInvoice d h = Inr iv \<and> ExternalPreimage (Terms iv)
      \<and> PaymentPreimage (Terms iv) = zeroPreimage \<and> PaymentHash (Terms iv) \<noteq> zeroHash
      \<and> p \<noteq> zeroPreimage
    \<longrightarrow>
      fst (AddInvoicePreimage H d h p) = Inr ()
      \<and> LookupInvoice (snd (AddInvoicePreimage H d h p)) h
            = Inr (iv\<lparr>Terms := (Terms iv)\<lparr>PaymentPreimage := p\<rparr>\<rparr>)
      \<and> AddInvoicePreimage H (snd (AddInvoicePreimage H d h p)) h q
            = (Inl ErrPreimageAlreadySet, snd (AddInvoicePreimage H d h p)))
   \<and> (LookupInvoice d' h' = Inr iv' \<and> \<not> ExternalPreimage (Terms iv')
    \<longrightarrow> AddInvoicePreimage H d' h' q' = (Inl ErrNotExternalPreimage, d'))"
proof (intro conjI impI)
  assume a: "LookupInvoice d h = Inr iv \<and> ExternalPreimage (Terms iv)
      \<and> PaymentPreimage (Terms iv) = zeroPreimage \<and> PaymentHash (Terms iv) \<noteq> zeroHash
      \<and> p \<noteq> zeroPreimage"
  then have l: "LookupInvoice d h = Inr iv" and x: "ExternalPreimage (Terms iv)"
    and z: "PaymentPreimage (Terms iv) = zeroPreimage" and nz: "PaymentHash (Terms iv) \<noteq> zeroHash"
    and p: "p \<noteq> zeroPreimage"
    by simp_all
  note first = AddInvoicePreimage_pending_fst_snd [OF l x z nz, of H p]
  show "fst (AddInvoicePreimage H d h p) = Inr ()" by (rule first(1))
  show "LookupInvoice (snd (AddInvoicePreimage H d h p)) h
            = Inr (iv\<lparr>Terms := (Terms iv)\<lparr>PaymentPreimage := p\<rparr>\<rparr>)" by (rule first(2))
  show "AddInvoicePreimage H (snd (AddInvoicePreimage H d h p)) h q
            = (Inl ErrPreimageAlreadySet, snd (AddInvoicePreimage H d h p))"
    using x p by (intro AddInvoicePreimage_already_set [OF first(2)]) simp_all
next
  assume "LookupInvoice d' h' = Inr iv' \<and> \<not> ExternalPreimage (Terms iv')"
  then show "AddInvoicePreimage H d' h' q' = (Inl ErrNotExternalPreimage, d')"
    using AddInvoicePreimage_not_external by blast
qed

theorem AddInvoicePreimage_write_once_witness:
  "LookupInvoice ledgerB 7 = Inr (invoiceB\<lparr>AddIndex := 1\<rparr>)
   \<and> ExternalPreimage (Terms (invoiceB\<lparr>AddIndex := 1\<rparr>))
   \<and> PaymentPreimage (Terms (invoiceB\<lparr>AddIndex := 1\<rparr>)) = zeroPreimage
   \<and> PaymentHash (Terms (invoiceB\<lparr>AddIndex := 1\<rparr>)) \<noteq> zeroHash
   \<and> (5 :: 256 word) \<noteq> zeroPreimage
   \<and> fst (AddInvoicePreimage exampleSum256 ledgerB 7 5) = Inr ()
   \<and> AddInvoicePreimage exampleSum256 (snd (AddInvoicePreimage exampleSum256 ledgerB 7 5)) 7 9
        = (Inl ErrPreimageAlreadySet, snd (AddInvoicePreimage exampleSum256 ledgerB 7 5))
   \<and> LookupInvoice ledgerA 4 = Inr (invoiceA\<lparr>AddIndex := 1\<rparr>)
   \<and> \<not> ExternalPreimage (Terms (invoiceA\<lparr>AddIndex := 1\<rparr>))
   \<and> AddInvoicePreimage exampleSum256 ledgerA 4 9 = (Inl ErrNotExternalPreimage, ledgerA)"
proof -
  have h: "LookupInvoice ledgerB 7 = Inr (invoiceB\<lparr>AddIndex := 1\<rparr>)
     \<and> ExternalPreimage (Terms (invoiceB\<lparr>AddIndex := 1\<rparr>))
     \<and> PaymentPreimage (Terms (invoiceB\<lparr>AddIndex := 1\<rparr>)) = zeroPreimage
     \<and> PaymentHash (Terms (invoiceB\<lparr>AddIndex := 1\<rparr>)) \<noteq> zeroHash
     \<and> (5 :: 256 word) \<noteq> zeroPreimage"
    by (simp add: Lookup_ledgerB) (simp add: invoiceB_def zeroPreimage_def zeroHash_def)
  have h': "LookupInvoice ledgerA 4 = Inr (invoiceA\<lparr>AddIndex := 1\<rparr>)
     \<and> \<not> ExternalPreimage (Terms (invoiceA\<lparr>AddIndex := 1\<rparr>))"
    by (simp add: Lookup_ledgerA) (simp add: invoiceA_def)
  show ?thesis
    using h h' AddInvoicePreimage_write_once [of ledgerB 7 "invoiceB\<lparr>AddIndex := 1\<rparr>" 5
        exampleSum256 9 ledgerA 4 "invoiceA\<lparr>AddIndex := 1\<rparr>" 9]
    by simp
qed

lemma SettleInvoice_settled_same:
  assumes l: "LookupInvoice d h = Inr iv" and s: "Settled (Terms iv)"
    and e: "\<exists>ib sb. d = Some ib \<and> settleIndexBucket ib = Some sb"
  shows "SettleInvoice H d h amt now = (Inr iv, d)"
proof -
  from l obtain ib ix k where d: "d = Some ib" and ix: "invoiceIndexBucket ib = Some ix"
    and g: "Get (entries ix) (bytes32 h) = Some k"
    and f: "fetchInvoice k (invoiceRecords ib) = Inr iv"
    by (rule LookupInvoice_InrE)
  from e d obtain sb where sb: "settleIndexBucket ib = Some sb" by auto
  have "ib\<lparr>settleIndexBucket := Some (CreateBucketIfNotExists (settleIndexBucket ib))\<rparr> = ib"
    by (simp add: sb CreateBucketIfNotExists_def)
  then show ?thesis
    using SettleInvoice_settled_explicit [OF d ix g f s, of H amt now] d by simp
qed

lemma SettleInvoice_first_ok:
  assumes l: "LookupInvoice d h = Inr iv" and s: "\<not> Settled (Terms iv)"
    and t: "timeEncodable now"
    and x: "ExternalPreimage (Terms iv) \<longrightarrow> PaymentHash (Terms iv) \<noteq> zeroHash"
  shows "\<exists>iv1 d1. SettleInvoice H d h amt now = (Inr iv1, d1)"
proof -
  from l obtain ib ix k where d: "d = Some ib" and ix: "invoiceIndexBucket ib = Some ix"
    and g: "Get (entries ix) (bytes32 h) = Some k"
    and f: "fetchInvoice k (invoiceRecords ib) = Inr iv"
    by (rule LookupInvoice_InrE)
  define sb where "sb = CreateBucketIfNotExists (settleIndexBucket ib)"
  let ?iv' = "iv\<lparr>AmtPaid := amt, Terms := (Terms iv)\<lparr>Settled := True\<rparr>,
                  SettleDate := now, SettleIndex := sequence sb + 1\<rparr>"
  note st = fetchInvoice_stored [OF f]
  have "\<exists>b. serializeInvoice H ?iv' = Inr b"
    using st t x by (intro serializeInvoice_ok) simp_all
  then obtain b where b: "serializeInvoice H ?iv' = Inr b" ..
  have "\<exists>r. settleInvoice H (invoiceRecords ib) sb k amt now = Inr r"
    by (simp add: settleInvoice_def f s NextSequence_def Let_def b)
  then obtain r where r: "settleInvoice H (invoiceRecords ib) sb k amt now = Inr r" ..
  show ?thesis
    unfolding SettleInvoice_def Update_def settleInvoiceTx_def Let_def
    by (cases r) (simp add: d ix g createInvoiceBucket_def sb_def [symmetric] r
        CreateBucketIfNotExists_def [of "Some ix"])
qed

text \<open>
  C5.  On a stored invoice whose record is marked settled, \<open>SettleInvoice\<close> returns the
  stored record, leaves every invoice record as it was, and leaves the settle sequence
  counter and the settle index as they were (so amount paid, settle date and settle index
  stay).  After a first call that settled the invoice, a second call on the same hash,
  with any amount and at any time, returns the same invoice and the same ledger: the two
  calls together advance the settle sequence by exactly one.
\<close>

theorem SettleInvoice_idempotent:
  "(LookupInvoice d h = Inr iv \<and> Settled (Terms iv)
    \<longrightarrow>
      fst (SettleInvoice H d h amt now) = Inr iv
      \<and> LookupInvoice (snd (SettleInvoice H d h amt now)) h = Inr iv
      \<and> recordsOf (snd (SettleInvoice H d h amt now)) = recordsOf d
      \<and> settleSequence (snd (SettleInvoice H d h amt now)) = settleSequence d
      \<and> settleEntries (snd (SettleInvoice H d h amt now)) = settleEntries d)
   \<and> (LookupInvoice d0 h0 = Inr iv0 \<and> \<not> Settled (Terms iv0)
      \<and> SettleInvoice H d0 h0 amt0 now0 = (Inr iv1, d1)
    \<longrightarrow>
      SettleInvoice H d1 h0 amt1 now1 = (Inr iv1, d1)
      \<and> SettleIndex iv1 = settleSequence d0 + 1
      \<and> settleSequence d1 = settleSequence d0 + 1)"
proof (intro conjI impI)
  assume a: "LookupInvoice d h = Inr iv \<and> Settled (Terms iv)"
  then have l: "LookupInvoice d h = Inr iv" and s: "Settled (Terms iv)" by simp_all
  note r = SettleInvoice_settled [OF l s, of H amt now]
  show "fst (SettleInvoice H d h amt now) = Inr iv" by (rule r(1))
  show "LookupInvoice (snd (SettleInvoice H d h amt now)) h = Inr iv" by (rule r(2))
  show "settleSequence (snd (SettleInvoice H d h amt now)) = settleSequence d" by (rule r(3))
  show "settleEntries (snd (SettleInvoice H d h amt now)) = settleEntries d" by (rule r(4))
  show "recordsOf (snd (SettleInvoice H d h amt now)) = recordsOf d" by (rule r(5))
next
  assume a: "LookupInvoice d0 h0 = Inr iv0 \<and> \<not> Settled (Terms iv0)
      \<and> SettleInvoice H d0 h0 amt0 now0 = (Inr iv1, d1)"
  then have l: "LookupInvoice d0 h0 = Inr iv0" and s: "\<not> Settled (Terms iv0)"
    and c: "SettleInvoice H d0 h0 amt0 now0 = (Inr iv1, d1)" by simp_all
  note r = SettleInvoice_first_result [OF l s c]
  have s1: "Settled (Terms iv1)" by (simp add: r(1))
  show "SettleInvoice H d1 h0 amt1 now1 = (Inr iv1, d1)"
    by (rule SettleInvoice_settled_same [OF r(2) s1 r(4)])
  show "SettleIndex iv1 = settleSequence d0 + 1" by (simp add: r(1))
  show "settleSequence d1 = settleSequence d0 + 1" by (rule r(3))
qed

lemma invoiceB_dates [simp]:
  "timeEncodable (CreationDate invoiceB)" "timeEncodable (SettleDate invoiceB)"
  by (simp_all add: invoiceB_def)

lemma settle_ledgerB:
  "SettleInvoice exampleSum256 ledgerB 7 10000 exampleTime = (Inr settledB, ledgerBsettled)"
  "LookupInvoice ledgerBsettled 7 = Inr settledB"
proof -
  let ?iv = "invoiceB\<lparr>AddIndex := 1\<rparr>"
  have u: "\<not> Settled (Terms ?iv)" and x: "ExternalPreimage (Terms ?iv) \<longrightarrow> PaymentHash (Terms ?iv) \<noteq> zeroHash"
    by (simp_all add: invoiceB_def zeroHash_def)
  from SettleInvoice_first_ok [OF Lookup_ledgerB u timeEncodable_examples(1) x, of exampleSum256 10000]
  obtain iv1 d1 where c: "SettleInvoice exampleSum256 ledgerB 7 10000 exampleTime = (Inr iv1, d1)"
    by blast
  note r = SettleInvoice_first_result [OF Lookup_ledgerB u c]
  have q: "settleSequence ledgerB = 0"
    using AddInvoice_stores(4) [of invoiceB exampleSum256 7 None]
    by (simp add: invoiceB_facts ledgerB_def)
  have iv1: "iv1 = settledB" unfolding r(1) q by (simp add: settledB_def invoiceB_def)
  have d1: "d1 = ledgerBsettled" by (simp add: ledgerBsettled_def c)
  show "SettleInvoice exampleSum256 ledgerB 7 10000 exampleTime = (Inr settledB, ledgerBsettled)"
    using c iv1 d1 by simp
  show "LookupInvoice ledgerBsettled 7 = Inr settledB"
    using r(2) iv1 d1 by simp
qed

theorem SettleInvoice_idempotent_witness:
  "LookupInvoice ledgerBsettled 7 = Inr settledB \<and> Settled (Terms settledB)
   \<and> fst (SettleInvoice exampleSum256 ledgerBsettled 7 5 zeroTime) = Inr settledB
   \<and> settleSequence (snd (SettleInvoice exampleSum256 ledgerBsettled 7 5 zeroTime))
        = settleSequence ledgerBsettled
   \<and> LookupInvoice ledgerB 7 = Inr (invoiceB\<lparr>AddIndex := 1\<rparr>)
   \<and> \<not> Settled (Terms (invoiceB\<lparr>AddIndex := 1\<rparr>))
   \<and> SettleInvoice exampleSum256 ledgerB 7 10000 exampleTime = (Inr settledB, ledgerBsettled)
   \<and> SettleInvoice exampleSum256 ledgerBsettled 7 5 zeroTime = (Inr settledB, ledgerBsettled)
   \<and> settleSequence ledgerBsettled = settleSequence ledgerB + 1"
proof -
  have h1: "LookupInvoice ledgerBsettled 7 = Inr settledB \<and> Settled (Terms settledB)"
    by (simp add: settle_ledgerB(2)) (simp add: settledB_def)
  have h2: "LookupInvoice ledgerB 7 = Inr (invoiceB\<lparr>AddIndex := 1\<rparr>)
      \<and> \<not> Settled (Terms (invoiceB\<lparr>AddIndex := 1\<rparr>))
      \<and> SettleInvoice exampleSum256 ledgerB 7 10000 exampleTime = (Inr settledB, ledgerBsettled)"
    by (simp add: Lookup_ledgerB settle_ledgerB(1)) (simp add: invoiceB_def)
  show ?thesis
    using h1 h2 SettleInvoice_idempotent [of ledgerBsettled 7 settledB exampleSum256 5 zeroTime
        ledgerB 7 "invoiceB\<lparr>AddIndex := 1\<rparr>" 10000 exampleTime settledB ledgerBsettled 5 zeroTime]
    by simp
qed

lemma decodeEncode_eq:
  assumes "withinCeilings i" "timeEncodable (CreationDate i)" "timeEncodable (SettleDate i)"
    "ExternalPreimage (Terms i) \<longrightarrow> PaymentHash (Terms i) \<noteq> zeroHash"
  shows "decodeEncode H i = Inr (storedForm i)"
proof -
  from serializeInvoice_ok [OF assms(2,3,4)] obtain b where b: "serializeInvoice H i = Inr b" ..
  show ?thesis
    by (simp add: decodeEncode_def b deserializeInvoice_serializeInvoice [OF b assms(1)])
qed

text \<open>
  C4, as stated, fails on the payment hash: an invoice whose preimage is not external and
  whose \<open>paymentHash\<close> field is set (here to the hash of its preimage) is read back with
  an all-zero \<open>paymentHash\<close>.
\<close>

theorem decodeEncode_paymentHash_counterexample:
  "withinCeilings invoiceWithHash \<and> timeEncodable (CreationDate invoiceWithHash)
   \<and> timeEncodable (SettleDate invoiceWithHash)
   \<and> decodeEncode exampleSum256 invoiceWithHash = Inr invoiceA
   \<and> decodeEncode exampleSum256 invoiceWithHash \<noteq> Inr invoiceWithHash"
proof -
  have w: "withinCeilings invoiceWithHash"
    by (simp add: invoiceWithHash_def invoiceA_def withinCeilings_def MaxMemoSize_def
        MaxReceiptSize_def MaxPaymentRequestSize_def)
  have t: "timeEncodable (CreationDate invoiceWithHash)" "timeEncodable (SettleDate invoiceWithHash)"
    by (simp_all add: invoiceWithHash_def invoiceA_def)
  have x: "ExternalPreimage (Terms invoiceWithHash) \<longrightarrow> PaymentHash (Terms invoiceWithHash) \<noteq> zeroHash"
    by (simp add: invoiceWithHash_def invoiceA_def)
  have s: "storedForm invoiceWithHash = invoiceA"
    by (simp add: storedForm_def invoiceWithHash_def invoiceA_def zeroHash_def)
  have n: "invoiceA \<noteq> invoiceWithHash"
  proof
    assume "invoiceA = invoiceWithHash"
    then have "PaymentHash (Terms invoiceA) = PaymentHash (Terms invoiceWithHash)" by simp
    then show False by (simp add: invoiceWithHash_def invoiceA_def)
  qed
  show ?thesis using decodeEncode_eq [OF w t x, of exampleSum256] w t s n by simp
qed

text \<open>
  C4, amended.  For every invoice whose memo, receipt and payment request are within the
  size ceilings, whose two timestamps are encodable and whose payment hash is not all-zero
  when its preimage is external, decoding the encoding yields the invoice with every field
  as in the original, except that \<open>paymentHash\<close> is all-zero when the preimage is not
  external; so the invoice itself comes back whenever a non-external invoice carries an
  all-zero \<open>paymentHash\<close>.
\<close>

theorem decodeEncode_roundtrip:
  "withinCeilings i \<and> timeEncodable (CreationDate i) \<and> timeEncodable (SettleDate i)
     \<and> (ExternalPreimage (Terms i) \<longrightarrow> PaymentHash (Terms i) \<noteq> zeroHash)
   \<longrightarrow>
     decodeEncode H i
       = Inr (i\<lparr>Terms := (Terms i)\<lparr>PaymentHash :=
               (if ExternalPreimage (Terms i) then PaymentHash (Terms i) else zeroHash)\<rparr>\<rparr>)
     \<and> ((\<not> ExternalPreimage (Terms i) \<longrightarrow> PaymentHash (Terms i) = zeroHash)
          \<longrightarrow> decodeEncode H i = Inr i)"
proof (intro impI)
  assume a: "withinCeilings i \<and> timeEncodable (CreationDate i) \<and> timeEncodable (SettleDate i)
     \<and> (ExternalPreimage (Terms i) \<longrightarrow> PaymentHash (Terms i) \<noteq> zeroHash)"
  then have e: "decodeEncode H i = Inr (storedForm i)"
    by (intro decodeEncode_eq) simp_all
  show "decodeEncode H i
       = Inr (i\<lparr>Terms := (Terms i)\<lparr>PaymentHash :=
               (if ExternalPreimage (Terms i) then PaymentHash (Terms i) else zeroHash)\<rparr>\<rparr>)
     \<and> ((\<not> ExternalPreimage (Terms i) \<longrightarrow> PaymentHash (Terms i) = zeroHash)
          \<longrightarrow> decodeEncode H i = Inr i)"
    using e storedForm_eq_iff [of i] by (simp add: storedForm_def)
qed

theorem decodeEncode_roundtrip_witness:
  "withinCeilings invoiceB \<and> timeEncodable (CreationDate invoiceB)
   \<and> timeEncodable (SettleDate invoiceB)
   \<and> ExternalPreimage (Terms invoiceB) \<and> PaymentHash (Terms invoiceB) \<noteq> zeroHash
   \<and> decodeEncode exampleSum256 invoiceB = Inr invoiceB"
proof -
  have h: "withinCeilings invoiceB \<and> timeEncodable (CreationDate invoiceB)
     \<and> timeEncodable (SettleDate invoiceB)
     \<and> (ExternalPreimage (Terms invoiceB) \<longrightarrow> PaymentHash (Terms invoiceB) \<noteq> zeroHash)"
    using invoiceB_facts(1) by (simp add: validateInvoice_None) (simp add: invoiceB_def zeroHash_def)
  have h': "ExternalPreimage (Terms invoiceB)" "PaymentHash (Terms invoiceB) \<noteq> zeroHash"
    by (simp_all add: invoiceB_def zeroHash_def)
  show ?thesis using h h' decodeEncode_roundtrip [of invoiceB exampleSum256] by simp
qed

section \<open>Atomicity, deduplication, sequence numbers and scans of missing structures\<close>

lemma bytes32_inj [simp]: "bytes32 a = bytes32 b \<longleftrightarrow> a = b"
proof
  assume "bytes32 a = bytes32 b"
  then have "of_bytes32 (bytes32 a) = of_bytes32 (bytes32 b)" by simp
  then show "a = b" by simp
qed simp

lemma PutUint64_inj [simp]: "PutUint64 a = PutUint64 b \<longleftrightarrow> a = b"
proof
  assume "PutUint64 a = PutUint64 b"
  then have "Uint64 (PutUint64 a) = Uint64 (PutUint64 b)" by simp
  then show "a = b" by simp
qed simp

lemma PutUint32_inj [simp]: "PutUint32 a = PutUint32 b \<longleftrightarrow> a = b"
proof
  assume "PutUint32 a = PutUint32 b"
  then have "Uint32 (PutUint32 a) = Uint32 (PutUint32 b)" by simp
  then show "a = b" by simp
qed simp

lemma length_PutUint32 [simp]: "length (PutUint32 v) = 4"
  by (simp add: PutUint32_def)

lemma length_PutUint64 [simp]: "length (PutUint64 v) = 8"
  by (simp add: PutUint64_def)

text \<open>What \<open>AddInvoice\<close> does to a ledger that does not index the payment hash yet.\<close>

lemma AddInvoice_explicit:
  assumes v: "validateInvoice i = None" and h: "getPaymentHash H i = Inr h"
    and n: "\<not> hashIndexed d h" and c: "counterReadable d"
  shows "AddInvoice H d i = addedLedger H d i h"
proof -
  define ib where "ib = createInvoiceBucket d"
  define ix where "ix = CreateBucketIfNotExists (invoiceIndexBucket ib)"
  define ai where "ai = CreateBucketIfNotExists (addIndexBucket ib)"
  define num where "num = nextInvoiceNum d"
  define ix1 where "ix1 = indexAfterCounter d"
  let ?i' = "i\<lparr>AddIndex := sequence ai + 1\<rparr>"
  have g: "Get (entries ix) (bytes32 h) = None"
    using n by (simp add: hashIndexed_create ix_def ib_def)
  have cnt: "(case Get (entries ix) numInvoicesKey of
                       None \<Rightarrow> Inr (0, BPut numInvoicesKey (PutUint32 0) ix)
                     | Some invoiceCounter \<Rightarrow>
                         (case readCounter invoiceCounter of
                            Inl e \<Rightarrow> Inl e
                          | Inr n \<Rightarrow> Inr (n, ix))) = Inr (num, ix1)"
  proof (cases "Get (entries ix) numInvoicesKey")
    case None
    then show ?thesis
      by (simp add: num_def ix1_def nextInvoiceNum_def indexAfterCounter_def
          ix_def [symmetric] ib_def [symmetric])
  next
    case (Some cv)
    then have "4 \<le> length cv" using counterReadable_create [OF c] by (simp add: ix_def ib_def)
    then show ?thesis using Some
      by (simp add: num_def ix1_def nextInvoiceNum_def indexAfterCounter_def
          ix_def [symmetric] ib_def [symmetric] readCounter_def)
  qed
  define ix' where "ix' = BPut (bytes32 h) (PutUint32 num) (BPut numInvoicesKey (PutUint32 (num + 1)) ix1)"
  define ai' where "ai' = BPut (PutUint64 (sequence ai + 1)) (PutUint32 num) (ai\<lparr>sequence := sequence ai + 1\<rparr>)"
  have p: "putInvoice H (invoiceRecords ib) ix1 ai i num =
      (case serializeInvoice H ?i' of
         Inl e \<Rightarrow> Inr (0, invoiceRecords ib, ix', ai')
       | Inr b \<Rightarrow> Inr (sequence ai + 1, Put (PutUint32 num) b (invoiceRecords ib), ix', ai'))"
    by (simp add: putInvoice_def Let_def h NextSequence_def ix'_def ai'_def split: sum.splits)
  have tx: "addInvoiceTx H i d =
      (case putInvoice H (invoiceRecords ib) ix1 ai i num of
         Inl e \<Rightarrow> Inl e
       | Inr (newIndex, invoices', invoiceIndex', addIndex') \<Rightarrow>
                        Inr (newIndex,
                             Some (ib\<lparr>invoiceRecords := invoices',
                                     invoiceIndexBucket := Some invoiceIndex',
                                     addIndexBucket := Some addIndex'\<rparr>)))"
    unfolding addInvoiceTx_def Let_def
    unfolding ib_def [symmetric]
    unfolding ix_def [symmetric] ai_def [symmetric]
    by (simp add: h g cnt)
  have "AddInvoice H d i =
       (case serializeInvoice H ?i' of
          Inl e \<Rightarrow> (Inr 0, Some (ib\<lparr>invoiceIndexBucket := Some ix', addIndexBucket := Some ai'\<rparr>))
        | Inr b \<Rightarrow>
            (Inr (sequence ai + 1),
             Some (ib\<lparr>invoiceRecords := Put (PutUint32 num) b (invoiceRecords ib),
                     invoiceIndexBucket := Some ix', addIndexBucket := Some ai'\<rparr>)))"
    by (simp add: AddInvoice_def v Update_def tx p split: sum.splits)
  also have "\<dots> = addedLedger H d i h"
    unfolding addedLedger_def Let_def
    unfolding ib_def [symmetric] num_def [symmetric] ix1_def [symmetric]
    unfolding ai_def [symmetric]
    unfolding ix'_def [symmetric] ai'_def [symmetric] ..
  finally show ?thesis .
qed


lemma indexAfterCounter_hash:
  "Get (entries (indexAfterCounter d)) (bytes32 h') \<noteq> None \<longleftrightarrow> hashIndexed d h'"
  by (simp add: indexAfterCounter_def Let_def hashIndexed_create BPut_def Get_Put
      split: option.splits)

lemma addSequence_addedLedger: "addSequence (snd (addedLedger H d i h)) = addSequence d + 1"
proof -
  have "addSequence (snd (addedLedger H d i h))
        = sequence (CreateBucketIfNotExists (addIndexBucket (createInvoiceBucket d))) + 1"
    by (simp add: addedLedger_def Let_def addSequence_def BPut_def split: sum.splits)
  then show ?thesis by (simp add: addSequence_create [of d])
qed

lemma hashIndexed_addedLedger:
  "hashIndexed (snd (addedLedger H d i h)) h' \<longleftrightarrow> hashIndexed d h' \<or> h' = h"
proof -
  have "hashIndexed (snd (addedLedger H d i h)) h' \<longleftrightarrow>
      Get (entries (BPut (bytes32 h) (PutUint32 (nextInvoiceNum d))
                        (BPut numInvoicesKey (PutUint32 (nextInvoiceNum d + 1))
                           (indexAfterCounter d)))) (bytes32 h') \<noteq> None"
    by (simp add: addedLedger_def Let_def hashIndexed_def split: sum.splits)
  also have "\<dots> \<longleftrightarrow> hashIndexed d h' \<or> h' = h"
    using indexAfterCounter_hash [of d h'] by (auto simp: BPut_def Get_Put)
  finally show ?thesis .
qed

lemma counter_addedLedger:
  "counterReadable (snd (addedLedger H d i h))"
  "nextInvoiceNum (snd (addedLedger H d i h)) = nextInvoiceNum d + 1"
proof -
  have g: "Get (entries (BPut (bytes32 h) (PutUint32 (nextInvoiceNum d))
                        (BPut numInvoicesKey (PutUint32 (nextInvoiceNum d + 1))
                           (indexAfterCounter d)))) numInvoicesKey
         = Some (PutUint32 (nextInvoiceNum d + 1))"
    by (simp add: BPut_def Get_Put)
  show "counterReadable (snd (addedLedger H d i h))"
    by (simp add: addedLedger_def Let_def counterReadable_def g split: sum.splits)
  show "nextInvoiceNum (snd (addedLedger H d i h)) = nextInvoiceNum d + 1"
    by (simp add: addedLedger_def Let_def nextInvoiceNum_def [of "Some _"] g
        createInvoiceBucket_def CreateBucketIfNotExists_def split: sum.splits)
qed

lemma serializeInvoice_fails:
  assumes "\<not> timeEncodable (CreationDate i) \<or> \<not> timeEncodable (SettleDate i)"
  shows "\<exists>e. serializeInvoice H i = Inl e"
  using assms
  by (auto simp: serializeInvoice_def timeEncodable_def split: sum.splits)

lemma AddInvoice_after:
  assumes v: "validateInvoice i = None" and h: "getPaymentHash H i = Inr h"
    and n: "\<not> hashIndexed d h" and c: "counterReadable d"
  shows "\<exists>idx. fst (AddInvoice H d i) = Inr idx"
    and "hashIndexed (snd (AddInvoice H d i)) h' \<longleftrightarrow> hashIndexed d h' \<or> h' = h"
    and "counterReadable (snd (AddInvoice H d i))"
    and "addSequence (snd (AddInvoice H d i)) = addSequence d + 1"
    and "nextInvoiceNum (snd (AddInvoice H d i)) = nextInvoiceNum d + 1"
proof -
  note A = AddInvoice_explicit [OF v h n c]
  show "\<exists>idx. fst (AddInvoice H d i) = Inr idx"
    by (simp add: A addedLedger_def Let_def split: sum.splits)
  show "hashIndexed (snd (AddInvoice H d i)) h' \<longleftrightarrow> hashIndexed d h' \<or> h' = h"
    unfolding A by (rule hashIndexed_addedLedger)
  show "counterReadable (snd (AddInvoice H d i))"
    unfolding A by (rule counter_addedLedger)
  show "addSequence (snd (AddInvoice H d i)) = addSequence d + 1"
    unfolding A by (rule addSequence_addedLedger)
  show "nextInvoiceNum (snd (AddInvoice H d i)) = nextInvoiceNum d + 1"
    unfolding A by (rule counter_addedLedger)
qed

lemma AddInvoice_fresh_unstored:
  assumes v: "validateInvoice i = None" and h: "getPaymentHash H i = Inr h"
    and t: "\<not> timeEncodable (CreationDate i) \<or> \<not> timeEncodable (SettleDate i)"
  shows "fst (AddInvoice H None i) = Inr 0"
    and "recordsOf (snd (AddInvoice H None i)) = []"
    and "LookupInvoice (snd (AddInvoice H None i)) h = Inl ErrInvoiceNotFound"
proof -
  note A = AddInvoice_explicit [OF v h fresh_ledger(1) fresh_ledger(2)]
  define ai where "ai = CreateBucketIfNotExists (addIndexBucket (createInvoiceBucket None))"
  from serializeInvoice_fails [of "i\<lparr>AddIndex := sequence ai + 1\<rparr>" H] t
  obtain e where e: "serializeInvoice H (i\<lparr>AddIndex := sequence ai + 1\<rparr>) = Inl e" by auto
  have r: "invoiceRecords (createInvoiceBucket None) = []"
    by (simp add: createInvoiceBucket_def emptyInvoiceBucket_def)
  have B: "AddInvoice H None i =
      (Inr 0, Some ((createInvoiceBucket None)\<lparr>invoiceIndexBucket :=
          Some (BPut (bytes32 h) (PutUint32 (nextInvoiceNum None))
                  (BPut numInvoicesKey (PutUint32 (nextInvoiceNum None + 1)) (indexAfterCounter None))),
          addIndexBucket := Some (BPut (PutUint64 (sequence ai + 1)) (PutUint32 (nextInvoiceNum None))
                  (ai\<lparr>sequence := sequence ai + 1\<rparr>))\<rparr>))"
    unfolding A addedLedger_def Let_def ai_def [symmetric] by (simp add: e)
  show "fst (AddInvoice H None i) = Inr 0" by (simp add: B)
  show "recordsOf (snd (AddInvoice H None i)) = []" by (simp add: B recordsOf_def r)
  have g: "Get (entries (BPut (bytes32 h) (PutUint32 (nextInvoiceNum None))
                  (BPut numInvoicesKey (PutUint32 (nextInvoiceNum None + 1)) (indexAfterCounter None))))
             (bytes32 h) = Some (PutUint32 (nextInvoiceNum None))"
    by (simp add: BPut_def Get_Put)
  have f: "\<And>k. fetchInvoice k [] = Inl ErrInvoiceNotFound"
    by (simp add: fetchInvoice_def Get_def)
  show "LookupInvoice (snd (AddInvoice H None i)) h = Inl ErrInvoiceNotFound"
    by (simp add: B LookupInvoice_def g r f)
qed

lemma unencodableInvoice_facts:
  "validateInvoice unencodableInvoice = None" "getPaymentHash H unencodableInvoice = Inr 7"
  "\<not> timeEncodable (CreationDate unencodableInvoice)"
  by (simp_all add: unencodableInvoice_def invoiceB_def validateInvoice_def getPaymentHash_def
      zeroHash_def MaxMemoSize_def MaxReceiptSize_def MaxPaymentRequestSize_def
      timeEncodable_def MarshalBinary_def zoneOffsetMin_def exampleTime_def)

lemma invoiceC_facts:
  "validateInvoice invoiceC = None" "getPaymentHash H invoiceC = Inr 9"
  "timeEncodable (CreationDate invoiceC)" "timeEncodable (SettleDate invoiceC)"
  by (simp_all add: invoiceC_def invoiceB_def validateInvoice_def getPaymentHash_def
      zeroHash_def MaxMemoSize_def MaxReceiptSize_def MaxPaymentRequestSize_def)

text \<open>
  C1.  The claim fails on the code.  On the fresh ledger, \<open>AddInvoice\<close> of an invoice whose
  creation date lies in a zone one minute west of UTC (which \<open>MarshalBinary\<close> cannot
  encode) reports success with add index 0; the transaction is committed with the hash
  index entry and the advanced add sequence, and no invoice record: the ledger holds no
  record, the hash is indexed, and \<open>LookupInvoice\<close> on it finds no invoice.
\<close>

theorem AddInvoice_success_without_record:
  "fst (AddInvoice H None unencodableInvoice) = Inr 0
   \<and> recordsOf (snd (AddInvoice H None unencodableInvoice)) = []
   \<and> hashIndexed (snd (AddInvoice H None unencodableInvoice)) 7
   \<and> addSequence (snd (AddInvoice H None unencodableInvoice)) = 1
   \<and> LookupInvoice (snd (AddInvoice H None unencodableInvoice)) 7 = Inl ErrInvoiceNotFound"
  using AddInvoice_fresh_unstored [of unencodableInvoice H 7]
    AddInvoice_after(2) [of unencodableInvoice H 7 None 7]
    AddInvoice_after(4) [of unencodableInvoice H 7 None]
  by (simp add: unencodableInvoice_facts)

text \<open>
  C8.  The claim fails on the code, by the defect of C1: the successful call above returns
  add index 0 and consumes sequence number 1, so the next successful call on that ledger
  returns 2, and the returned indices are 0, 2.
\<close>

theorem AddInvoice_indices_zero_then_two:
  "fst (AddInvoice H None unencodableInvoice) = Inr 0
   \<and> fst (AddInvoice H (snd (AddInvoice H None unencodableInvoice)) invoiceC) = Inr 2"
proof -
  let ?d = "snd (AddInvoice H None unencodableInvoice)"
  note a = AddInvoice_after [of unencodableInvoice H 7 None, OF unencodableInvoice_facts(1,2)
      fresh_ledger(1,2)]
  have n: "\<not> hashIndexed ?d 9" using a(2) [of 9] by simp
  have q: "addSequence ?d = 1" using a(4) by simp
  from AddInvoice_stores(1) [OF invoiceC_facts(1,2) n a(3) invoiceC_facts(3,4)] q
  have "fst (AddInvoice H ?d invoiceC) = Inr 2" by simp
  then show ?thesis
    using AddInvoice_fresh_unstored(1) [of unencodableInvoice H 7]
    by (simp add: unencodableInvoice_facts)
qed

text \<open>
  C9, as stated, fails: the size ceilings are checked before the duplicate check, so a
  second invoice with the same payment hash and an oversized memo is refused for its
  size, not as a duplicate.
\<close>

theorem AddInvoice_oversized_duplicate_counterexample:
  "getPaymentHash exampleSum256 invoiceB = Inr 7
   \<and> getPaymentHash exampleSum256 oversizedB = Inr 7
   \<and> fst (AddInvoice exampleSum256 None invoiceB) = Inr 1
   \<and> fst (AddInvoice exampleSum256 (snd (AddInvoice exampleSum256 None invoiceB)) oversizedB)
        = Inl ErrMemoTooLong"
proof -
  have "validateInvoice oversizedB = Some ErrMemoTooLong"
    by (simp add: oversizedB_def validateInvoice_def MaxMemoSize_def)
  then have "fst (AddInvoice exampleSum256 (snd (AddInvoice exampleSum256 None invoiceB)) oversizedB)
        = Inl ErrMemoTooLong"
    by (simp add: AddInvoice_def)
  moreover have "getPaymentHash exampleSum256 oversizedB = Inr 7"
    by (simp add: oversizedB_def invoiceB_def getPaymentHash_def zeroHash_def)
  moreover have "fst (AddInvoice exampleSum256 None invoiceB) = Inr 1"
    using AddInvoice_stores(1) [of invoiceB exampleSum256 7 None]
    by (simp add: invoiceB_facts)
  ultimately show ?thesis by (simp add: invoiceB_facts)
qed

text \<open>
  C9, amended.  For every pair of invoices within the size ceilings with the same
  effective payment hash, on a ledger that does not hold that hash yet, adding the first
  (its timestamps encodable) succeeds, and adding the second then fails with
  \<open>ErrDuplicateInvoice\<close>, whatever its other fields, and leaves the ledger unchanged.
\<close>

theorem AddInvoice_dedup:
  "validateInvoice i1 = None \<and> validateInvoice i2 = None
     \<and> getPaymentHash H i1 = Inr h \<and> getPaymentHash H i2 = Inr h
     \<and> timeEncodable (CreationDate i1) \<and> timeEncodable (SettleDate i1)
     \<and> \<not> hashIndexed d h \<and> counterReadable d
   \<longrightarrow>
     fst (AddInvoice H d i1) = Inr (addSequence d + 1)
     \<and> AddInvoice H (snd (AddInvoice H d i1)) i2
          = (Inl ErrDuplicateInvoice, snd (AddInvoice H d i1))"
proof (intro impI)
  assume a: "validateInvoice i1 = None \<and> validateInvoice i2 = None
     \<and> getPaymentHash H i1 = Inr h \<and> getPaymentHash H i2 = Inr h
     \<and> timeEncodable (CreationDate i1) \<and> timeEncodable (SettleDate i1)
     \<and> \<not> hashIndexed d h \<and> counterReadable d"
  then have v1: "validateInvoice i1 = None" and v2: "validateInvoice i2 = None"
    and h1: "getPaymentHash H i1 = Inr h" and h2: "getPaymentHash H i2 = Inr h"
    and t: "timeEncodable (CreationDate i1)" "timeEncodable (SettleDate i1)"
    and n: "\<not> hashIndexed d h" and c: "counterReadable d"
    by simp_all
  have x: "hashIndexed (snd (AddInvoice H d i1)) h"
    using AddInvoice_after(2) [OF v1 h1 n c, of h] by simp
  show "fst (AddInvoice H d i1) = Inr (addSequence d + 1)
     \<and> AddInvoice H (snd (AddInvoice H d i1)) i2
          = (Inl ErrDuplicateInvoice, snd (AddInvoice H d i1))"
    using AddInvoice_stores(1) [OF v1 h1 n c t] AddInvoice_duplicate [OF v2 h2 x]
    by simp
qed

theorem AddInvoice_dedup_witness:
  "validateInvoice invoiceB = None \<and> validateInvoice (invoiceB\<lparr>Receipt := [1], AmtPaid := 5\<rparr>) = None
   \<and> getPaymentHash exampleSum256 invoiceB = Inr 7
   \<and> getPaymentHash exampleSum256 (invoiceB\<lparr>Receipt := [1], AmtPaid := 5\<rparr>) = Inr 7
   \<and> timeEncodable (CreationDate invoiceB) \<and> timeEncodable (SettleDate invoiceB)
   \<and> \<not> hashIndexed None 7 \<and> counterReadable None
   \<and> fst (AddInvoice exampleSum256 None invoiceB) = Inr 1
   \<and> AddInvoice exampleSum256 ledgerB (invoiceB\<lparr>Receipt := [1], AmtPaid := 5\<rparr>)
        = (Inl ErrDuplicateInvoice, ledgerB)"
proof -
  have h: "validateInvoice invoiceB = None \<and> validateInvoice (invoiceB\<lparr>Receipt := [1], AmtPaid := 5\<rparr>) = None
     \<and> getPaymentHash exampleSum256 invoiceB = Inr 7
     \<and> getPaymentHash exampleSum256 (invoiceB\<lparr>Receipt := [1], AmtPaid := 5\<rparr>) = Inr 7
     \<and> timeEncodable (CreationDate invoiceB) \<and> timeEncodable (SettleDate invoiceB)
     \<and> \<not> hashIndexed None 7 \<and> counterReadable None"
    by (simp add: invoiceB_facts)
      (simp add: invoiceB_def validateInvoice_def getPaymentHash_def zeroHash_def
        MaxMemoSize_def MaxReceiptSize_def MaxPaymentRequestSize_def)
  show ?thesis
    using h AddInvoice_dedup [of invoiceB "invoiceB\<lparr>Receipt := [1], AmtPaid := 5\<rparr>"
        exampleSum256 7 None]
    by (simp add: ledgerB_def)
qed

text \<open>
  C3.  The claim fails on the code.  On the ledger whose invoice bucket does not exist,
  \<open>FetchAllInvoices\<close> and \<open>InvoicesSettledSince\<close> return \<open>ErrNoInvoicesCreated\<close> to
  the caller, where \<open>InvoicesAddedSince\<close> and \<open>QueryInvoices\<close> return the empty
  sequence.
\<close>

theorem scans_on_fresh_ledger:
  "FetchAllInvoices None pendingOnly = Inl ErrNoInvoicesCreated
   \<and> InvoicesSettledSince None 1 = Inl ErrNoInvoicesCreated
   \<and> InvoicesAddedSince None 1 = Inr []
   \<and> QueryInvoices None q
        = Inr \<lparr>Query = q, Invoices = [], FirstIndexOffset = 0, LastIndexOffset = 0\<rparr>"
  by (simp add: FetchAllInvoices_def InvoicesSettledSince_def InvoicesAddedSince_def
      QueryInvoices_def queryInvoicesTx_def)

lemma AddInvoice_fresh_buckets:
  assumes v: "validateInvoice i = None" and h: "getPaymentHash H i = Inr h"
  shows "\<exists>ib ai k. snd (AddInvoice H None i) = Some ib \<and> settleIndexBucket ib = None
           \<and> addIndexBucket ib = Some ai \<and> entries ai = [(PutUint64 1, k)]"
  unfolding AddInvoice_explicit [OF v h fresh_ledger(1) fresh_ledger(2)]
  by (simp add: addedLedger_def Let_def createInvoiceBucket_def emptyInvoiceBucket_def
      CreateBucketIfNotExists_def emptyBucket_def BPut_def split: sum.splits)

text \<open>
  C7.  The claim fails on the code, by the defect of C3: on the ledger that holds one
  added invoice and no settled one, the settle index has not been created, and
  \<open>InvoicesSettledSince 1\<close> returns \<open>ErrNoInvoicesCreated\<close> instead of the empty
  sequence of invoices whose settle index exceeds 1; \<open>InvoicesAddedSince 1\<close> on the same
  ledger returns the empty sequence.
\<close>

theorem InvoicesSettledSince_before_first_settle:
  "LookupInvoice ledgerB 7 = Inr (invoiceB\<lparr>AddIndex := 1\<rparr>)
   \<and> InvoicesSettledSince ledgerB 1 = Inl ErrNoInvoicesCreated
   \<and> InvoicesAddedSince ledgerB 1 = Inr []
   \<and> InvoicesAddedSince ledgerB 0 = Inr []"
proof -
  from AddInvoice_fresh_buckets [OF invoiceB_facts(1,2), of exampleSum256]
  obtain ib ai k where l: "ledgerB = Some ib" and s: "settleIndexBucket ib = None"
    and a: "addIndexBucket ib = Some ai" and e: "entries ai = [(PutUint64 1, k)]"
    by (auto simp: ledgerB_def)
  have 1: "InvoicesSettledSince ledgerB 1 = Inl ErrNoInvoicesCreated"
    by (simp add: InvoicesSettledSince_def l s)
  have "sinceScan (invoiceRecords ib) (entries ai) 1 = Inr []"
    by (simp add: sinceScan_def e Seek_def Next_def sinceLoop.simps)
  then have 2: "InvoicesAddedSince ledgerB 1 = Inr []"
    by (simp add: InvoicesAddedSince_def l a)
  have 3: "InvoicesAddedSince ledgerB 0 = Inr []"
    by (simp add: InvoicesAddedSince_def)
  show ?thesis using 1 2 3 Lookup_ledgerB by simp
qed

section \<open>Pagination over the add index\<close>

lemma queryLoop_None [simp]: "queryLoop q recs idx (None, p) acc = Inr acc"
  by (simp add: queryLoop.simps)

lemma fetch_nth:
  assumes "map (\<lambda>e. fetchInvoice (snd e) recs) idx = map Inr invs" "p < length idx"
  shows "fetchInvoice (snd (idx ! p)) recs = Inr (invs ! p)" "length invs = length idx"
proof -
  show l: "length invs = length idx" using assms(1) by (metis length_map)
  have "map (\<lambda>e. fetchInvoice (snd e) recs) idx ! p = map Inr invs ! p" using assms(1) by simp
  then show "fetchInvoice (snd (idx ! p)) recs = Inr (invs ! p)"
    using assms(2) l by simp
qed

lemma queryLoop_step:
  assumes f: "map (\<lambda>e. fetchInvoice (snd e) recs) idx = map Inr invs" and p: "p < length idx"
  shows "queryLoop q recs idx (cursor_at idx p, p) acc =
     (if length acc \<ge> unat (NumMaxInvoices q) then Inr acc
      else queryLoop q recs idx (nextKey q idx p) (if keep q (invs ! p) then acc @ [invs ! p] else acc))"
proof -
  obtain k v where kv: "idx ! p = (k, v)" by (cases "idx ! p")
  have fv: "fetchInvoice v recs = Inr (invs ! p)" using fetch_nth(1) [OF f p] kv by simp
  show ?thesis
    using p by (simp add: queryLoop.simps cursor_at_def kv fv keep_def)
qed

lemma queryLoop_forward:
  assumes f: "map (\<lambda>e. fetchInvoice (snd e) recs) idx = map Inr invs" and r: "\<not> Reversed q"
  shows "queryLoop q recs idx (cursor_at idx p, p) acc =
     Inr (acc @ take (unat (NumMaxInvoices q) - length acc) (filter (keep q) (drop p invs)))"
proof (induction "length idx - p" arbitrary: p acc)
  case 0
  then have "cursor_at idx p = None" by (simp add: cursor_at_def)
  moreover have "drop p invs = []" using 0 fetch_nth(2) [OF f] 
    by (metis assms(1) diff_is_0_eq drop_all length_map)
  ultimately show ?case by simp
next
  case (Suc n)
  then have p: "p < length idx" by simp
  have l: "length invs = length idx" using f by (metis length_map)
  have d: "drop p invs = invs ! p # drop (Suc p) invs"
    using p l by (simp add: Cons_nth_drop_Suc)
  let ?acc' = "if keep q (invs ! p) then acc @ [invs ! p] else acc"
  have nx: "queryLoop q recs idx (nextKey q idx p) ?acc' =
            queryLoop q recs idx (cursor_at idx (Suc p), Suc p) ?acc'"
    using r by (simp add: nextKey_def Next_def cursor_at_def)
  have ih: "queryLoop q recs idx (cursor_at idx (Suc p), Suc p) ?acc' =
     Inr (?acc' @ take (unat (NumMaxInvoices q) - length ?acc') (filter (keep q) (drop (Suc p) invs)))"
    using Suc(2) by (intro Suc(1)) simp
  show ?case
  proof (cases "length acc \<ge> unat (NumMaxInvoices q)")
    case True
    then show ?thesis by (simp add: queryLoop_step [OF f p])
  next
    case False
    then obtain m where m: "unat (NumMaxInvoices q) - length acc = Suc m"
      by (metis Suc_diff_Suc not_le)
    then have m2: "unat (NumMaxInvoices q) - Suc (length acc) = m" by simp
    show ?thesis
      using False by (simp add: queryLoop_step [OF f p] nx ih d m m2)
  qed
qed

lemma queryLoop_backward:
  assumes f: "map (\<lambda>e. fetchInvoice (snd e) recs) idx = map Inr invs" and r: "Reversed q"
    and p: "p < length idx"
  shows "queryLoop q recs idx (cursor_at idx p, p) acc =
     Inr (acc @ take (unat (NumMaxInvoices q) - length acc)
                  (filter (keep q) (rev (take (Suc p) invs))))"
  using p
proof (induction p arbitrary: acc)
  case 0
  have l: "length invs = length idx" using f by (metis length_map)
  have t: "take (Suc 0) invs = [invs ! 0]" using 0 l by (simp add: take_Suc_conv_app_nth)
  have nx: "nextKey q idx 0 = (None, 0)" using r by (simp add: nextKey_def Prev_def)
  show ?case
  proof (cases "length acc \<ge> unat (NumMaxInvoices q)")
    case True
    then show ?thesis by (simp add: queryLoop_step [OF f 0])
  next
    case False
    then obtain m where m: "unat (NumMaxInvoices q) - length acc = Suc m"
      by (metis Suc_diff_Suc not_le)
    then have m2: "unat (NumMaxInvoices q) - Suc (length acc) = m" by simp
    show ?thesis
      using False by (simp add: queryLoop_step [OF f 0] nx t m m2)
  qed
next
  case (Suc p)
  then have p: "p < length idx" by simp
  have l: "length invs = length idx" using f by (metis length_map)
  have t: "take (Suc (Suc p)) invs = take (Suc p) invs @ [invs ! Suc p]"
    using Suc(2) l by (simp add: take_Suc_conv_app_nth)
  let ?acc' = "if keep q (invs ! Suc p) then acc @ [invs ! Suc p] else acc"
  have nx: "nextKey q idx (Suc p) = (cursor_at idx p, p)"
    using r p by (simp add: nextKey_def Prev_def cursor_at_def)
  note ih = Suc(1) [OF p, of ?acc']
  show ?case
  proof (cases "length acc \<ge> unat (NumMaxInvoices q)")
    case True
    then show ?thesis by (simp add: queryLoop_step [OF f Suc(2)])
  next
    case False
    then obtain m where m: "unat (NumMaxInvoices q) - length acc = Suc m"
      by (metis Suc_diff_Suc not_le)
    then have m2: "unat (NumMaxInvoices q) - Suc (length acc) = m" by simp
    show ?thesis
      using False by (simp add: queryLoop_step [OF f Suc(2)] nx ih t m m2)
  qed
qed

lemma snoc_less_snoc:
  fixes xs ys :: "'a::linorder list"
  assumes "length xs = length ys"
  shows "xs @ [a] < ys @ [b] \<longleftrightarrow> xs < ys \<or> (xs = ys \<and> a < b)"
  using assms by (induction xs ys rule: list_induct2) auto

lemma base256_less_iff:
  fixes qx rx qy ry :: nat
  assumes "rx < 256" "ry < 256"
  shows "256 * qx + rx < 256 * qy + ry \<longleftrightarrow> qx < qy \<or> (qx = qy \<and> rx < ry)"
  using assms by auto

lemma div_mod_less_iff:
  fixes x y :: nat
  shows "x < y \<longleftrightarrow> x div 256 < y div 256 \<or> (x div 256 = y div 256 \<and> x mod 256 < y mod 256)"
proof -
  have "x < y \<longleftrightarrow> 256 * (x div 256) + x mod 256 < 256 * (y div 256) + y mod 256"
    by simp
  also have "\<dots> \<longleftrightarrow> x div 256 < y div 256 \<or> (x div 256 = y div 256 \<and> x mod 256 < y mod 256)"
    by (rule base256_less_iff) simp_all
  finally show ?thesis .
qed

lemma be_bytes_eq_iff:
  assumes "x < 256 ^ n" "y < 256 ^ n"
  shows "be_bytes n x = be_bytes n y \<longleftrightarrow> x = y"
proof
  assume "be_bytes n x = be_bytes n y"
  then have "be_nat (be_bytes n x) = be_nat (be_bytes n y)" by simp
  then show "x = y" using assms by (simp add: be_nat_be_bytes)
qed simp

lemma byte_of_nat_less: "(of_nat (x mod 256) :: byte) < of_nat (y mod 256) \<longleftrightarrow> x mod 256 < y mod 256"
  by (simp add: word_less_nat_alt unat_byte_of_nat_mod)

lemma be_bytes_less:
  assumes "x < 256 ^ n" "y < 256 ^ n"
  shows "be_bytes n x < be_bytes n y \<longleftrightarrow> x < y"
  using assms
proof (induction n arbitrary: x y)
  case 0
  then show ?case by simp
next
  case (Suc n)
  have dx: "x div 256 < 256 ^ n" and dy: "y div 256 < 256 ^ n"
    using Suc.prems by (simp_all add: less_mult_imp_div_less mult.commute)
  have "be_bytes (Suc n) x < be_bytes (Suc n) y \<longleftrightarrow>
      be_bytes n (x div 256) < be_bytes n (y div 256)
      \<or> (be_bytes n (x div 256) = be_bytes n (y div 256)
          \<and> (of_nat (x mod 256) :: byte) < of_nat (y mod 256))"
    by (simp add: snoc_less_snoc)
  also have "\<dots> \<longleftrightarrow> x div 256 < y div 256 \<or> (x div 256 = y div 256 \<and> x mod 256 < y mod 256)"
    by (simp only: Suc.IH [OF dx dy] be_bytes_eq_iff [OF dx dy] byte_of_nat_less)
  also have "\<dots> \<longleftrightarrow> x < y" by (rule div_mod_less_iff [symmetric])
  finally show ?case .
qed

lemma PutUint64_less [simp]: "PutUint64 a < PutUint64 b \<longleftrightarrow> a < b"
proof -
  have "unat a < 256 ^ 8" "unat b < 256 ^ 8"
    using unsigned_less [of a, where 'a = nat] unsigned_less [of b, where 'a = nat] by simp_all
  then show ?thesis by (simp add: PutUint64_def be_bytes_less word_less_nat_alt)
qed

lemma PutUint32_less [simp]: "PutUint32 a < PutUint32 b \<longleftrightarrow> a < b"
proof -
  have "unat a < 256 ^ 4" "unat b < 256 ^ 4"
    using unsigned_less [of a, where 'a = nat] unsigned_less [of b, where 'a = nat] by simp_all
  then show ?thesis by (simp add: PutUint32_def be_bytes_less word_less_nat_alt)
qed

lemma takeWhile_less_upt: "takeWhile (\<lambda>n. n < k) [a..<b] = [a..<min k b]"
proof (cases "b \<le> k")
  case True
  then have "\<And>x. x \<in> set [a..<b] \<Longrightarrow> x < k" by simp
  then have "takeWhile (\<lambda>n. n < k) [a..<b] = [a..<b]" by (simp add: takeWhile_eq_all_conv)
  then show ?thesis using True by (simp add: min_def)
next
  case False
  then have kb: "k < b" by simp
  then have m: "min k b = k" by simp
  show ?thesis
  proof (cases "a < k")
    case False
    then have "takeWhile (\<lambda>n. n < k) [a..<b] = []"
      by (cases "a < b") (simp_all add: upt_conv_Cons)
    then show ?thesis using False m by simp
  next
    case True
    have "[a..<k + (b - k)] = [a..<k] @ [k..<k + (b - k)]"
      using True by (intro upt_add_eq_append) simp
    then have sp: "[a..<b] = [a..<k] @ (k # [Suc k..<b])"
      using kb by (simp add: upt_conv_Cons)
    have all: "\<And>x. x \<in> set [a..<k] \<Longrightarrow> x < k" by simp
    have "takeWhile (\<lambda>n. n < k) ([a..<k] @ (k # [Suc k..<b])) =
          [a..<k] @ takeWhile (\<lambda>n. n < k) (k # [Suc k..<b])"
      by (rule takeWhile_append2) (rule all)
    then show ?thesis unfolding sp [symmetric] m by simp
  qed
qed

lemma word64_of_nat_less:
  assumes "n < 2 ^ 64"
  shows "(of_nat n :: 64 word) < t \<longleftrightarrow> n < unat t"
proof -
  have "unat (of_nat n :: 64 word) = n"
    using assms by (intro of_nat_inverse [OF refl]) simp
  then show ?thesis by (simp add: word_less_nat_alt)
qed

lemma Seek_series:
  assumes ks: "map fst idx = map (\<lambda>n. PutUint64 (of_nat n)) [1..<Suc N]" and N: "N < 2 ^ 64"
  shows "Seek idx (PutUint64 t) =
           (cursor_at idx (min (unat t) (Suc N) - 1), min (unat t) (Suc N) - 1)"
proof -
  have "length (takeWhile (\<lambda>e. fst e < PutUint64 t) idx)
        = length (takeWhile (\<lambda>k. k < PutUint64 t) (map fst idx))"
    by (simp add: takeWhile_map comp_def)
  also have "\<dots> = length (takeWhile (\<lambda>n. PutUint64 (of_nat n) < PutUint64 t) [1..<Suc N])"
    unfolding ks by (simp add: takeWhile_map comp_def)
  also have "takeWhile (\<lambda>n. PutUint64 (of_nat n) < PutUint64 t) [1..<Suc N]
        = takeWhile (\<lambda>n. n < unat t) [1..<Suc N]"
  proof (rule takeWhile_cong [OF refl])
    fix n assume "n \<in> set [1..<Suc N]"
    then have "n \<le> N" by auto
    then have "n < 2 ^ 64" using N by (rule le_less_trans)
    then show "PutUint64 (of_nat n) < PutUint64 t \<longleftrightarrow> n < unat t"
      by (simp add: word64_of_nat_less)
  qed
  also have "length \<dots> = min (unat t) (Suc N) - 1"
    unfolding takeWhile_less_upt by (simp only: length_upt)
  finally show ?thesis by (simp add: Seek_def Let_def)
qed

lemma addSeriesE:
  assumes "addSeries d invs"
  obtains ib ai where "d = Some ib" "addIndexBucket ib = Some ai" "length invs < 2 ^ 64"
    "map fst (entries ai) = map (\<lambda>n. PutUint64 (of_nat n)) [1..<Suc (length invs)]"
    "map (\<lambda>e. fetchInvoice (snd e) (invoiceRecords ib)) (entries ai) = map Inr invs"
    "map AddIndex invs = map of_nat [1..<Suc (length invs)]"
    "length (entries ai) = length invs"
proof -
  from assms obtain ib ai where 1: "d = Some ib" "addIndexBucket ib = Some ai" "length invs < 2 ^ 64"
    "map fst (entries ai) = map (\<lambda>n. PutUint64 (of_nat n)) [1..<Suc (length invs)]"
    "map (\<lambda>e. fetchInvoice (snd e) (invoiceRecords ib)) (entries ai) = map Inr invs"
    "map AddIndex invs = map of_nat [1..<Suc (length invs)]"
    by (auto simp: addSeries_def split: option.splits)
  from 1(5) have "length (entries ai) = length invs" by (metis length_map)
  with 1 show ?thesis by (rule that)
qed

lemma page_Nil [simp]: "page q [] = []"
  by (simp add: page_def)

text \<open>What the read transaction of \<open>QueryInvoices\<close> returns on a ledger whose add index
  holds the invoices \<open>invs\<close> under the sequence numbers 1, 2, ...\<close>

lemma queryInvoicesTx_series:
  assumes s: "addSeries d invs"
  shows "queryInvoicesTx q d =
     Inr (if Reversed q then
            (if IndexOffset q = 0 then rev (page q (rev invs))
             else if IndexOffset q = 1 then []
             else if unat (IndexOffset q) - 1 \<le> length invs
             then rev (page q (rev (take (unat (IndexOffset q) - 1) invs)))
             else [])
          else page q (drop (min (unat (IndexOffset q + 1)) (Suc (length invs)) - 1) invs))"
proof -
  from s obtain ib ai where d: "d = Some ib" and ai: "addIndexBucket ib = Some ai"
    and N: "length invs < 2 ^ 64"
    and ks: "map fst (entries ai) = map (\<lambda>n. PutUint64 (of_nat n)) [1..<Suc (length invs)]"
    and f: "map (\<lambda>e. fetchInvoice (snd e) (invoiceRecords ib)) (entries ai) = map Inr invs"
    and l: "length (entries ai) = length invs"
    by (rule addSeriesE)
  let ?idx = "entries ai" and ?recs = "invoiceRecords ib"
  note seek = Seek_series [OF ks N]
  show ?thesis
  proof (cases "Reversed q")
    case False
    let ?p = "min (unat (IndexOffset q + 1)) (Suc (length invs)) - 1"
    have "queryLoop q ?recs ?idx (cursor_at ?idx ?p, ?p) [] = Inr (page q (drop ?p invs))"
      by (simp add: queryLoop_forward [OF f False] page_def)
    then show ?thesis
      using False by (simp add: queryInvoicesTx_def d ai keyForIndex_def seek Let_def)
  next
    case True
    show ?thesis
    proof (cases "IndexOffset q = 0")
      case z: True
      show ?thesis
      proof (cases "invs = []")
        case True
        then have "entries ai = []" using l by simp
        then show ?thesis
          using \<open>Reversed q\<close> z True
          by (simp add: queryInvoicesTx_def d ai Let_def Last_def)
      next
        case False
        then have ne: "entries ai \<noteq> []" using l by auto
        let ?p = "length invs - 1"
        have p: "?p < length ?idx" using False l by simp
        have la: "Last ?idx = (cursor_at ?idx ?p, ?p)"
          using ne l p by (simp add: Last_def cursor_at_def last_conv_nth)
        have sp: "Suc ?p = length invs" using False by simp
        have "queryLoop q ?recs ?idx (cursor_at ?idx ?p, ?p) [] = Inr (page q (rev invs))"
          unfolding queryLoop_backward [OF f True p] sp by (simp add: page_def)
        then show ?thesis
          using \<open>Reversed q\<close> z by (simp add: queryInvoicesTx_def d ai Let_def la)
      qed
    next
      case nz: False
      show ?thesis
      proof (cases "IndexOffset q = 1")
        case True
        then show ?thesis
          using \<open>Reversed q\<close> by (simp add: queryInvoicesTx_def d ai Let_def)
      next
        case False
        have "unat (IndexOffset q) \<noteq> unat (0 :: 64 word)"
          "unat (IndexOffset q) \<noteq> unat (1 :: 64 word)"
          using nz False by (simp_all only: word_unat_eq_iff [symmetric] not_False_eq_True)
        then have u: "1 < unat (IndexOffset q)" by simp
        then have t: "unat (IndexOffset q - 1) = unat (IndexOffset q) - 1"
          by (simp add: unat_minus_one nz)
        let ?t = "unat (IndexOffset q) - 1"
        let ?p = "min ?t (Suc (length invs)) - 1"
        have sk: "keyForIndex ?idx (IndexOffset q - 1) = (cursor_at ?idx ?p, ?p)"
          by (simp add: keyForIndex_def seek t)
        show ?thesis
        proof (cases "?t \<le> length invs")
          case le: True
          then have pe: "?p = ?t - 1" by simp
          have p: "?p < length ?idx" using le u l by simp
          have sp: "Suc ?p = ?t" using u pe by simp
          have "queryLoop q ?recs ?idx (cursor_at ?idx ?p, ?p) [] = Inr (page q (rev (take ?t invs)))"
            unfolding queryLoop_backward [OF f True p] sp by (simp add: page_def)
          then show ?thesis
            using \<open>Reversed q\<close> nz False le by (simp add: queryInvoicesTx_def d ai Let_def sk)
        next
          case gt: False
          then have pe: "?p = length invs" by simp
          have "cursor_at ?idx ?p = None" unfolding pe by (simp add: cursor_at_def l)
          then show ?thesis
            using \<open>Reversed q\<close> nz False gt by (simp add: queryInvoicesTx_def d ai Let_def sk)
        qed
      qed
    qed
  qed
qed

lemma series_sorted:
  assumes "addSeries d invs"
  shows "sorted_wrt (\<lambda>a b. AddIndex a < AddIndex b) invs"
proof -
  from assms have N: "length invs < 2 ^ 64"
    and a: "map AddIndex invs = map of_nat [1..<Suc (length invs)]"
    by (auto elim: addSeriesE)
  have "sorted_wrt (\<lambda>x y. (of_nat x :: 64 word) < of_nat y) [1..<Suc (length invs)]"
  proof (rule sorted_wrt_mono_rel [OF _ sorted_wrt_upt])
    fix x y assume "x \<in> set [1..<Suc (length invs)]" "y \<in> set [1..<Suc (length invs)]" "x < y"
    then have "x \<le> length invs" "y \<le> length invs" by auto
    then have "x < 2 ^ 64" "y < 2 ^ 64" using N by simp_all
    then have "unat (of_nat x :: 64 word) = x" "unat (of_nat y :: 64 word) = y"
      by (simp_all add: of_nat_inverse [OF refl])
    then show "(of_nat x :: 64 word) < of_nat y" using \<open>x < y\<close> by (simp add: word_less_nat_alt)
  qed
  then have "sorted_wrt (<) (map of_nat [1..<Suc (length invs)] :: 64 word list)"
    by (simp only: sorted_wrt_map)
  then have "sorted_wrt (<) (map AddIndex invs)" by (simp only: a)
  then show ?thesis by (simp only: sorted_wrt_map)
qed

lemma sorted_page:
  assumes "sorted_wrt R xs"
  shows "sorted_wrt R (page q xs)"
  using assms by (simp add: page_def sorted_wrt_filter)

lemma sorted_rev_page_rev:
  assumes "sorted_wrt R xs"
  shows "sorted_wrt R (rev (page q (rev xs)))"
proof -
  have "sorted_wrt (\<lambda>x y. R y x) (rev xs)" using assms by (simp add: sorted_wrt_rev)
  then have "sorted_wrt (\<lambda>x y. R y x) (page q (rev xs))" by (rule sorted_page)
  then show ?thesis by (simp add: sorted_wrt_rev)
qed

lemma queryInvoicesTx_sorted:
  assumes s: "addSeries d invs"
  shows "\<exists>xs. queryInvoicesTx q d = Inr xs \<and> sorted_wrt (\<lambda>a b. AddIndex a < AddIndex b) xs"
proof -
  note so = series_sorted [OF s]
  have 1: "sorted_wrt (\<lambda>a b. AddIndex a < AddIndex b) (rev (page q (rev invs)))"
    by (rule sorted_rev_page_rev [OF so])
  have 2: "\<And>k. sorted_wrt (\<lambda>a b. AddIndex a < AddIndex b) (rev (page q (rev (take k invs))))"
    by (rule sorted_rev_page_rev) (simp add: so)
  have 3: "\<And>k. sorted_wrt (\<lambda>a b. AddIndex a < AddIndex b) (page q (drop k invs))"
    by (rule sorted_page) (simp add: so)
  show ?thesis
    unfolding queryInvoicesTx_series [OF s] using 1 2 3 by simp
qed

lemma QueryInvoices_Inr:
  assumes "queryInvoicesTx q d = Inr xs"
  shows "\<exists>r. QueryInvoices d q = Inr r \<and> Invoices r = xs"
  using assms by (simp add: QueryInvoices_def)

lemma page_all:
  assumes "length xs \<le> unat (NumMaxInvoices q)"
  shows "page q xs = filter (keep q) xs"
proof -
  have "length (filter (keep q) xs) \<le> unat (NumMaxInvoices q)"
    using assms length_filter_le [of "keep q" xs] by (rule le_trans [rotated])
  then show ?thesis by (simp add: page_def)
qed

lemma keep_Reversed [simp]: "keep (q\<lparr>Reversed := b\<rparr>) = keep q"
  by (rule ext) (simp add: keep_def)

text \<open>
  The pages of \<open>QueryInvoices\<close> on a ledger whose add index holds the invoices \<open>invs\<close>
  under the sequence numbers 1, 2, ...: a reversed query with offset 0 returns what a
  descending walk from the last record collects (the first \<open>NumMaxInvoices\<close> invoices of
  \<open>rev invs\<close> that pass the pending filter), put back in ascending order; with offset 1
  it returns nothing; with a larger offset the walk starts at add index offset - 1 when
  the index holds a record there, and collects nothing otherwise.  In every mode the
  query succeeds and the add indices of the returned invoices ascend strictly.  At offset
  0, when \<open>NumMaxInvoices\<close> is at least the number of invoices, the reversed and the
  forward query return the same invoices.
\<close>

lemma QueryInvoices_on_series:
  "addSeries d invs \<longrightarrow>
     (Reversed q0 \<and> IndexOffset q0 = 0 \<longrightarrow>
        (\<exists>r. QueryInvoices d q0 = Inr r \<and> Invoices r = rev (page q0 (rev invs))))
     \<and> (Reversed q1 \<and> IndexOffset q1 = 1 \<longrightarrow>
        (\<exists>r. QueryInvoices d q1 = Inr r \<and> Invoices r = []))
     \<and> (Reversed q2 \<and> 1 < IndexOffset q2 \<longrightarrow>
        (\<exists>r. QueryInvoices d q2 = Inr r
           \<and> Invoices r = (if unat (IndexOffset q2) - 1 \<le> length invs
                            then rev (page q2 (rev (take (unat (IndexOffset q2) - 1) invs)))
                            else [])))
     \<and> (\<exists>r. QueryInvoices d q = Inr r \<and> sorted_wrt (<) (map AddIndex (Invoices r)))
     \<and> (IndexOffset qa = 0 \<and> length invs \<le> unat (NumMaxInvoices qa) \<longrightarrow>
        (\<exists>r r'. QueryInvoices d (qa\<lparr>Reversed := True\<rparr>) = Inr r
           \<and> QueryInvoices d (qa\<lparr>Reversed := False\<rparr>) = Inr r'
           \<and> Invoices r = Invoices r' \<and> Invoices r' = filter (keep qa) invs))"
proof (intro impI conjI)
  assume s: "addSeries d invs"
  note tx = queryInvoicesTx_series [OF s]
  {
    assume "Reversed q0 \<and> IndexOffset q0 = 0"
    then have "queryInvoicesTx q0 d = Inr (rev (page q0 (rev invs)))" by (simp add: tx)
    then show "\<exists>r. QueryInvoices d q0 = Inr r \<and> Invoices r = rev (page q0 (rev invs))"
      by (rule QueryInvoices_Inr)
  }
  {
    assume "Reversed q1 \<and> IndexOffset q1 = 1"
    then have "queryInvoicesTx q1 d = Inr []" by (simp add: tx)
    then show "\<exists>r. QueryInvoices d q1 = Inr r \<and> Invoices r = []"
      by (rule QueryInvoices_Inr)
  }
  {
    assume a: "Reversed q2 \<and> 1 < IndexOffset q2"
    then have "IndexOffset q2 \<noteq> 0" "IndexOffset q2 \<noteq> 1" by auto
    then have "queryInvoicesTx q2 d =
        Inr (if unat (IndexOffset q2) - 1 \<le> length invs
             then rev (page q2 (rev (take (unat (IndexOffset q2) - 1) invs)))
             else [])"
      using a by (simp add: tx)
    then show "\<exists>r. QueryInvoices d q2 = Inr r
           \<and> Invoices r = (if unat (IndexOffset q2) - 1 \<le> length invs
                            then rev (page q2 (rev (take (unat (IndexOffset q2) - 1) invs)))
                            else [])"
      by (rule QueryInvoices_Inr)
  }
  {
    from queryInvoicesTx_sorted [OF s, of q] obtain xs where
      x: "queryInvoicesTx q d = Inr xs" and so: "sorted_wrt (\<lambda>a b. AddIndex a < AddIndex b) xs"
      by blast
    from QueryInvoices_Inr [OF x] so
    show "\<exists>r. QueryInvoices d q = Inr r \<and> sorted_wrt (<) (map AddIndex (Invoices r))"
      by (auto simp: sorted_wrt_map)
  }
  {
    assume a: "IndexOffset qa = 0 \<and> length invs \<le> unat (NumMaxInvoices qa)"
    then have z: "IndexOffset qa = 0" and m: "length invs \<le> unat (NumMaxInvoices qa)" by simp_all
    have r: "queryInvoicesTx (qa\<lparr>Reversed := True\<rparr>) d = Inr (filter (keep qa) invs)"
      using m by (simp add: queryInvoicesTx_series [OF s] z page_all rev_filter [symmetric])
    have f: "queryInvoicesTx (qa\<lparr>Reversed := False\<rparr>) d = Inr (filter (keep qa) invs)"
      using m by (simp add: queryInvoicesTx_series [OF s] z page_all)
    from QueryInvoices_Inr [OF r] QueryInvoices_Inr [OF f]
    show "\<exists>r r'. QueryInvoices d (qa\<lparr>Reversed := True\<rparr>) = Inr r
           \<and> QueryInvoices d (qa\<lparr>Reversed := False\<rparr>) = Inr r'
           \<and> Invoices r = Invoices r' \<and> Invoices r' = filter (keep qa) invs"
      by auto
  }
qed

section \<open>Ledgers built by adding invoices\<close>

lemma ledgerOf_fresh: "ledgerOf None []"
  by (simp add: ledgerOf_def Let_def createInvoiceBucket_def emptyInvoiceBucket_def
      CreateBucketIfNotExists_def emptyBucket_def nextInvoiceNum_def Get_def)

lemma Put_append:
  assumes "\<And>e. e \<in> set es \<Longrightarrow> fst e < k"
  shows "Put k v es = es @ [(k, v)]"
  using assms
proof (induction es)
  case Nil
  then show ?case by simp
next
  case (Cons e es)
  obtain k' v' where e: "e = (k', v')" by (cases e)
  have "k' < k" using Cons.prems [of e] e by simp
  then have "\<not> k < k'" "k \<noteq> k'" by auto
  moreover have "Put k v es = es @ [(k, v)]" using Cons.prems by (intro Cons.IH) simp
  ultimately show ?case by (simp add: e)
qed

lemma word32_of_nat_neq:
  assumes "n < m" "m < 2 ^ 32"
  shows "(of_nat n :: 32 word) \<noteq> of_nat m"
proof
  assume "(of_nat n :: 32 word) = of_nat m"
  then have "unat (of_nat n :: 32 word) = unat (of_nat m :: 32 word)" by simp
  moreover have "unat (of_nat n :: 32 word) = n" "unat (of_nat m :: 32 word) = m"
    using assms by (simp_all add: of_nat_inverse [OF refl])
  ultimately show False using assms(1) by simp
qed

lemma word64_of_nat_mono:
  assumes "n < m" "m < 2 ^ 64"
  shows "(of_nat n :: 64 word) < of_nat m"
proof -
  have "unat (of_nat n :: 64 word) = n" "unat (of_nat m :: 64 word) = m"
    using assms by (simp_all add: of_nat_inverse [OF refl])
  then show ?thesis using assms(1) by (simp add: word_less_nat_alt)
qed

lemma ledgerOf_AddInvoice:
  assumes L: "ledgerOf d invs"
    and v: "validateInvoice i = None" and h: "getPaymentHash H i = Inr h"
    and n: "\<not> hashIndexed d h"
    and tc: "timeEncodable (CreationDate i)" and ts: "timeEncodable (SettleDate i)"
    and room: "Suc (length invs) < 2 ^ 32"
  shows "fst (AddInvoice H d i) = Inr (of_nat (Suc (length invs)))"
    and "ledgerOf (snd (AddInvoice H d i))
           (invs @ [storedForm (i\<lparr>AddIndex := of_nat (Suc (length invs))\<rparr>)])"
proof -
  define N where "N = length invs"
  define ib where "ib = createInvoiceBucket d"
  define ai where "ai = CreateBucketIfNotExists (addIndexBucket ib)"
  define key where "key = PutUint32 (of_nat N)"
  define K where "K = PutUint64 (of_nat (Suc N))"
  from L have c: "counterReadable d" and num: "nextInvoiceNum d = of_nat N"
    and sq: "sequence ai = of_nat N"
    and es: "entries ai = map (\<lambda>n. (PutUint64 (of_nat (Suc n)), PutUint32 (of_nat n))) [0..<N]"
    and fs: "map (\<lambda>n. fetchInvoice (PutUint32 (of_nat n)) (invoiceRecords ib)) [0..<N] = map Inr invs"
    and ad: "map AddIndex invs = map of_nat [1..<Suc N]"
    unfolding ledgerOf_def Let_def ib_def [symmetric]
    unfolding ai_def [symmetric] N_def [symmetric]
    by simp_all
  have N32: "Suc N < 2 ^ 32" using room by (simp add: N_def)
  have "(2::nat) ^ 32 \<le> 2 ^ 64" by simp
  then have N64: "Suc N < 2 ^ 64" using N32 by (rule less_le_trans [rotated])
  let ?i' = "i\<lparr>AddIndex := of_nat (Suc N)\<rparr>"
  have sq1: "sequence ai + 1 = of_nat (Suc N)" by (simp add: sq)
  have "\<exists>b. serializeInvoice H ?i' = Inr b"
    using tc ts getPaymentHash_external [OF h]
    by (intro serializeInvoice_ok) simp_all
  then obtain b where b: "serializeInvoice H ?i' = Inr b" ..
  have w: "withinCeilings ?i'" using v by (simp add: validateInvoice_None withinCeilings_def)
  define ix' where "ix' = BPut (bytes32 h) key
       (BPut numInvoicesKey (PutUint32 (of_nat N + 1)) (indexAfterCounter d))"
  define ai' where "ai' = BPut K key (ai\<lparr>sequence := of_nat (Suc N)\<rparr>)"
  define d' where "d' = Some (ib\<lparr>invoiceRecords := Put key b (invoiceRecords ib),
                      invoiceIndexBucket := Some ix', addIndexBucket := Some ai'\<rparr>)"
  have A: "AddInvoice H d i = (Inr (of_nat (Suc N)), d')"
    unfolding AddInvoice_explicit [OF v h n c] addedLedger_def Let_def
    unfolding ib_def [symmetric] num
    unfolding ai_def [symmetric] sq1 b
    by (simp add: d'_def ix'_def ai'_def key_def K_def)
  show "fst (AddInvoice H d i) = Inr (of_nat (Suc (length invs)))"
    by (simp add: A N_def)
  have c': "counterReadable d'" "nextInvoiceNum d' = of_nat (Suc N)"
    using counter_addedLedger [of H d i h] num
    unfolding AddInvoice_explicit [OF v h n c, symmetric] A by simp_all
  have lt: "\<And>e. e \<in> set (entries ai) \<Longrightarrow> fst e < K"
  proof -
    fix e assume "e \<in> set (entries ai)"
    then obtain m where m: "m < N" and e: "e = (PutUint64 (of_nat (Suc m)), PutUint32 (of_nat m))"
      unfolding es by auto
    have "(of_nat (Suc m) :: 64 word) < of_nat (Suc N)"
      using m N64 by (intro word64_of_nat_mono) simp_all
    then show "fst e < K" by (simp add: e K_def)
  qed
  have es': "entries ai' = map (\<lambda>n. (PutUint64 (of_nat (Suc n)), PutUint32 (of_nat n))) [0..<Suc N]"
    using Put_append [of "entries ai" K key, OF lt]
    by (simp add: ai'_def BPut_def es K_def key_def)
  have old: "\<And>m. m < N \<Longrightarrow>
      fetchInvoice (PutUint32 (of_nat m)) (Put key b (invoiceRecords ib))
        = fetchInvoice (PutUint32 (of_nat m)) (invoiceRecords ib)"
  proof -
    fix m assume m: "m < N"
    have "(of_nat m :: 32 word) \<noteq> of_nat N"
      using m N32 by (intro word32_of_nat_neq) simp_all
    then show "fetchInvoice (PutUint32 (of_nat m)) (Put key b (invoiceRecords ib))
        = fetchInvoice (PutUint32 (of_nat m)) (invoiceRecords ib)"
      by (simp add: fetchInvoice_def Get_Put key_def)
  qed
  have new: "fetchInvoice key (Put key b (invoiceRecords ib)) = Inr (storedForm ?i')"
    by (rule fetchInvoice_Put [OF b w])
  have "map (\<lambda>n. fetchInvoice (PutUint32 (of_nat n)) (Put key b (invoiceRecords ib))) [0..<N]
        = map (\<lambda>n. fetchInvoice (PutUint32 (of_nat n)) (invoiceRecords ib)) [0..<N]"
    by (rule map_cong [OF refl]) (simp add: old)
  then have fs': "map (\<lambda>n. fetchInvoice (PutUint32 (of_nat n)) (Put key b (invoiceRecords ib))) [0..<Suc N]
        = map Inr (invs @ [storedForm ?i'])"
    using new by (simp add: fs key_def)
  have ad': "map AddIndex (invs @ [storedForm ?i']) = map of_nat [1..<Suc (Suc N)]"
    using ad by (simp add: storedForm_def)
  have "ledgerOf d' (invs @ [storedForm ?i'])"
    unfolding ledgerOf_def Let_def
    using N32 c' es' fs' ad'
    by (simp add: d'_def createInvoiceBucket_def CreateBucketIfNotExists_def N_def [symmetric] ai'_def BPut_def)
  then show "ledgerOf (snd (AddInvoice H d i))
           (invs @ [storedForm (i\<lparr>AddIndex := of_nat (Suc (length invs))\<rparr>)])"
    by (simp add: A N_def)
qed

lemma ledgerOf_addSeries:
  assumes L: "ledgerOf d invs" and ne: "invs \<noteq> []"
  shows "addSeries d invs"
proof -
  define N where "N = length invs"
  define ib where "ib = createInvoiceBucket d"
  define ai where "ai = CreateBucketIfNotExists (addIndexBucket ib)"
  from L have N32: "N < 2 ^ 32"
    and es: "entries ai = map (\<lambda>n. (PutUint64 (of_nat (Suc n)), PutUint32 (of_nat n))) [0..<N]"
    and fs: "map (\<lambda>n. fetchInvoice (PutUint32 (of_nat n)) (invoiceRecords ib)) [0..<N] = map Inr invs"
    and ad: "map AddIndex invs = map of_nat [1..<Suc N]"
    unfolding ledgerOf_def Let_def ib_def [symmetric]
    unfolding ai_def [symmetric] N_def [symmetric]
    by simp_all
  have "(2::nat) ^ 32 \<le> 2 ^ 64" by simp
  then have N64: "N < 2 ^ 64" using N32 by (rule less_le_trans [rotated])
  have "N \<noteq> 0" using ne by (simp add: N_def)
  then have "entries ai \<noteq> []" by (simp add: es)
  then have s: "d = Some ib \<and> addIndexBucket ib = Some ai"
    by (auto simp: ai_def ib_def createInvoiceBucket_def CreateBucketIfNotExists_def
        emptyInvoiceBucket_def emptyBucket_def split: option.splits)
  have "map fst (entries ai) = map (\<lambda>n. PutUint64 (of_nat n)) (map Suc [0..<N])"
    by (simp add: es comp_def)
  then have k: "map fst (entries ai) = map (\<lambda>n. PutUint64 (of_nat n)) [1..<Suc N]"
    by (simp only: map_Suc_upt One_nat_def)
  have f: "map (\<lambda>e. fetchInvoice (snd e) (invoiceRecords ib)) (entries ai) = map Inr invs"
    by (simp add: es comp_def fs)
  show ?thesis
    using s N64 k f ad by (simp add: addSeries_def N_def)
qed

lemma ledgerOf_ledgerB: "ledgerOf ledgerB [invoiceB\<lparr>AddIndex := 1\<rparr>]"
  using ledgerOf_AddInvoice(2) [OF ledgerOf_fresh invoiceB_facts(1,2) fresh_ledger(1) invoiceB_dates,
      of exampleSum256]
  by (simp add: ledgerB_def invoiceB_facts(3))

lemma ledgerOf_ledgerBC:
  "ledgerOf ledgerBC [invoiceB\<lparr>AddIndex := 1\<rparr>, invoiceC\<lparr>AddIndex := 2\<rparr>]"
proof -
  have n: "\<not> hashIndexed ledgerB 9"
    using AddInvoice_after(2) [OF invoiceB_facts(1,2) fresh_ledger(1,2), of exampleSum256 9]
    by (simp add: ledgerB_def)
  have s: "storedForm (invoiceC\<lparr>AddIndex := 2\<rparr>) = invoiceC\<lparr>AddIndex := 2\<rparr>"
    by (simp add: storedForm_eq_iff invoiceC_def invoiceB_def)
  show ?thesis
    using ledgerOf_AddInvoice(2) [OF ledgerOf_ledgerB invoiceC_facts(1,2) n invoiceC_facts(3,4),
        of exampleSum256]
    by (simp add: ledgerBC_def s)
qed

lemma addSeries_ledgerBC:
  "addSeries ledgerBC [invoiceB\<lparr>AddIndex := 1\<rparr>, invoiceC\<lparr>AddIndex := 2\<rparr>]"
  by (rule ledgerOf_addSeries [OF ledgerOf_ledgerBC]) simp

text \<open>The pages of the ledger that holds \<open>invoiceB\<close> and \<open>invoiceC\<close>.\<close>

lemma QueryInvoices_on_ledgerBC:
  "addSeries ledgerBC [invoiceB\<lparr>AddIndex := 1\<rparr>, invoiceC\<lparr>AddIndex := 2\<rparr>]
   \<and> (\<exists>r. QueryInvoices ledgerBC
            \<lparr>IndexOffset = 0, NumMaxInvoices = 1, PendingOnly = False, Reversed = True\<rparr> = Inr r
          \<and> Invoices r = [invoiceC\<lparr>AddIndex := 2\<rparr>])
   \<and> (\<exists>r. QueryInvoices ledgerBC
            \<lparr>IndexOffset = 1, NumMaxInvoices = 10, PendingOnly = False, Reversed = True\<rparr> = Inr r
          \<and> Invoices r = [])
   \<and> (1 :: 64 word) < 3
   \<and> (\<exists>r. QueryInvoices ledgerBC
            \<lparr>IndexOffset = 3, NumMaxInvoices = 10, PendingOnly = False, Reversed = True\<rparr> = Inr r
          \<and> Invoices r = [invoiceB\<lparr>AddIndex := 1\<rparr>, invoiceC\<lparr>AddIndex := 2\<rparr>])
   \<and> (\<exists>r. QueryInvoices ledgerBC
            \<lparr>IndexOffset = 2, NumMaxInvoices = 10, PendingOnly = False, Reversed = True\<rparr> = Inr r
          \<and> sorted_wrt (<) (map AddIndex (Invoices r)))
   \<and> (\<exists>r r'. QueryInvoices ledgerBC
            \<lparr>IndexOffset = 0, NumMaxInvoices = 10, PendingOnly = False, Reversed = True\<rparr> = Inr r
          \<and> QueryInvoices ledgerBC
            \<lparr>IndexOffset = 0, NumMaxInvoices = 10, PendingOnly = False, Reversed = False\<rparr> = Inr r'
          \<and> Invoices r = Invoices r'
          \<and> Invoices r' = [invoiceB\<lparr>AddIndex := 1\<rparr>, invoiceC\<lparr>AddIndex := 2\<rparr>])"
proof -
  note s = addSeries_ledgerBC
  have k: "\<And>q x. \<not> PendingOnly q \<Longrightarrow> keep q x" by (simp add: keep_def)
  show ?thesis
    using s QueryInvoices_on_series [of ledgerBC
        "[invoiceB\<lparr>AddIndex := 1\<rparr>, invoiceC\<lparr>AddIndex := 2\<rparr>]"
        "\<lparr>IndexOffset = 0, NumMaxInvoices = 1, PendingOnly = False, Reversed = True\<rparr>"
        "\<lparr>IndexOffset = 1, NumMaxInvoices = 10, PendingOnly = False, Reversed = True\<rparr>"
        "\<lparr>IndexOffset = 3, NumMaxInvoices = 10, PendingOnly = False, Reversed = True\<rparr>"
        "\<lparr>IndexOffset = 2, NumMaxInvoices = 10, PendingOnly = False, Reversed = True\<rparr>"
        "\<lparr>IndexOffset = 0, NumMaxInvoices = 10, PendingOnly = False, Reversed = True\<rparr>"]
    by (simp add: page_def k)
qed

lemma unat_of_nat64: "n < 2 ^ 64 \<Longrightarrow> unat (of_nat n :: 64 word) = n"
  by (rule of_nat_inverse [OF refl]) simp

lemma sinceLoop_None [simp]: "sinceLoop recs idx start (None, p) acc = Inr acc"
  by (simp add: sinceLoop.simps)

lemma sinceLoop_Some:
  "sinceLoop recs idx start (Some (k, v), p) acc =
     (if \<not> start < k then Inr acc
      else case fetchInvoice v recs of
             Inl e \<Rightarrow> Inl e
           | Inr invoice \<Rightarrow> sinceLoop recs idx start (Next idx p) (acc @ [invoice]))"
  by (simp add: sinceLoop.simps)

lemma series_key_nth:
  assumes ks: "map fst idx = map (\<lambda>n. PutUint64 (of_nat n)) [1..<Suc N]" and p: "p < length idx"
  shows "fst (idx ! p) = PutUint64 (of_nat (Suc p))" "length idx = N"
proof -
  have "length (map fst idx) = length (map (\<lambda>n. PutUint64 (of_nat n)) [1..<Suc N])"
    by (simp only: ks)
  then show l: "length idx = N" by simp
  have "map fst idx ! p = map (\<lambda>n. PutUint64 (of_nat n)) [1..<Suc N] ! p" by (simp only: ks)
  then show "fst (idx ! p) = PutUint64 (of_nat (Suc p))" using p l by (simp del: upt_Suc)
qed

lemma sinceLoop_series:
  assumes ks: "map fst idx = map (\<lambda>n. PutUint64 (of_nat n)) [1..<Suc N]" and N: "N < 2 ^ 64"
    and f: "map (\<lambda>e. fetchInvoice (snd e) recs) idx = map Inr invs"
  shows "unat since \<le> p \<Longrightarrow>
     sinceLoop recs idx (PutUint64 since) (cursor_at idx p, p) acc = Inr (acc @ drop p invs)"
proof (induction "length idx - p" arbitrary: p acc)
  case 0
  then have "cursor_at idx p = None" by (simp add: cursor_at_def)
  moreover have "drop p invs = []" using 0 fetch_nth(2) [OF f]
    by (metis diff_is_0_eq drop_all f length_map)
  ultimately show ?case by simp
next
  case (Suc n)
  then have p: "p < length idx" by simp
  have l: "length invs = length idx" using f by (metis length_map)
  obtain k v where kv: "idx ! p = (k, v)" by (cases "idx ! p")
  have k: "k = PutUint64 (of_nat (Suc p))" using series_key_nth(1) [OF ks p] kv by simp
  have "Suc p \<le> N" using p series_key_nth(2) [OF ks p] by simp
  then have "Suc p < 2 ^ 64" using N by (rule le_less_trans)
  then have "unat (of_nat (Suc p) :: 64 word) = Suc p" by (rule unat_of_nat64)
  then have "since < of_nat (Suc p)" using Suc.prems by (simp only: word_less_nat_alt)
  then have gt: "PutUint64 since < k" by (simp only: k PutUint64_less)
  have fv: "fetchInvoice v recs = Inr (invs ! p)" using fetch_nth(1) [OF f p] kv by simp
  have d: "drop p invs = invs ! p # drop (Suc p) invs"
    using p l by (simp add: Cons_nth_drop_Suc)
  have nx: "sinceLoop recs idx (PutUint64 since) (Next idx p) (acc @ [invs ! p]) =
            sinceLoop recs idx (PutUint64 since) (cursor_at idx (Suc p), Suc p) (acc @ [invs ! p])"
    by (simp add: Next_def cursor_at_def)
  have ih: "sinceLoop recs idx (PutUint64 since) (cursor_at idx (Suc p), Suc p) (acc @ [invs ! p])
            = Inr ((acc @ [invs ! p]) @ drop (Suc p) invs)"
    using Suc(2) Suc.prems by (intro Suc(1)) simp_all
  have "sinceLoop recs idx (PutUint64 since) (cursor_at idx p, p) acc
        = sinceLoop recs idx (PutUint64 since) (Next idx p) (acc @ [invs ! p])"
    using p gt by (simp add: sinceLoop_Some cursor_at_def kv fv)
  then show ?case by (simp add: nx ih d)
qed

lemma sinceScan_series:
  assumes ks: "map fst idx = map (\<lambda>n. PutUint64 (of_nat n)) [1..<Suc N]" and N: "N < 2 ^ 64"
    and f: "map (\<lambda>e. fetchInvoice (snd e) recs) idx = map Inr invs"
    and nz: "since \<noteq> 0"
  shows "sinceScan recs idx since = Inr (drop (unat since) invs)"
proof -
  have l: "length idx = N" "length invs = N"
    using ks f by (metis length_map length_upt diff_Suc_1 One_nat_def)+
  have u: "0 < unat since" using nz by (simp add: unat_gt_0)
  let ?p0 = "min (unat since) (Suc N) - 1"
  have sk: "Seek idx (PutUint64 since) = (cursor_at idx ?p0, ?p0)" by (rule Seek_series [OF ks N])
  show ?thesis
  proof (cases "unat since < N")
    case True
    then have p0: "?p0 = unat since - 1" by simp
    have nx: "Next idx ?p0 = (cursor_at idx (unat since), unat since)"
      unfolding p0 using True u l by (simp add: Next_def cursor_at_def)
    have "sinceScan recs idx since = sinceLoop recs idx (PutUint64 since) (Next idx ?p0) []"
      by (simp only: sinceScan_def Let_def sk split_conv)
    then show ?thesis
      using sinceLoop_series [OF ks N f, of since "unat since" "[]"]
      by (simp only: nx) simp
  next
    case False
    then have "\<not> ?p0 + 1 < length idx" using l u by simp
    then have nx: "Next idx ?p0 = (None, ?p0)" by (simp add: Next_def)
    have "sinceScan recs idx since = sinceLoop recs idx (PutUint64 since) (Next idx ?p0) []"
      by (simp only: sinceScan_def Let_def sk split_conv)
    moreover have "drop (unat since) invs = []" using False l by simp
    ultimately show ?thesis by (simp only: nx) simp
  qed
qed

text \<open>
  The catch-up scan over the add index, where the index exists: on a ledger whose add
  index holds the invoices \<open>invs\<close> under the sequence numbers 1, 2, ..., every non-zero
  \<open>sinceAddIndex\<close> yields the invoices after the first \<open>sinceAddIndex\<close>, in order, which are
  the invoices whose add index is greater.
\<close>

lemma InvoicesAddedSince_series:
  assumes s: "addSeries d invs" and nz: "since \<noteq> 0"
  shows "InvoicesAddedSince d since = Inr (drop (unat since) invs)"
proof -
  from s obtain ib ai where d: "d = Some ib" and ai: "addIndexBucket ib = Some ai"
    and N: "length invs < 2 ^ 64"
    and ks: "map fst (entries ai) = map (\<lambda>n. PutUint64 (of_nat n)) [1..<Suc (length invs)]"
    and f: "map (\<lambda>e. fetchInvoice (snd e) (invoiceRecords ib)) (entries ai) = map Inr invs"
    by (rule addSeriesE)
  show ?thesis
    using nz by (simp add: InvoicesAddedSince_def d ai sinceScan_series [OF ks N f nz])
qed

lemma InvoicesSettledSince_series:
  assumes d: "d = Some ib" and si: "settleIndexBucket ib = Some si"
    and N: "length invs < 2 ^ 64"
    and ks: "map fst (entries si) = map (\<lambda>n. PutUint64 (of_nat n)) [1..<Suc (length invs)]"
    and f: "map (\<lambda>e. fetchInvoice (snd e) (invoiceRecords ib)) (entries si) = map Inr invs"
    and nz: "since \<noteq> 0"
  shows "InvoicesSettledSince d since = Inr (drop (unat since) invs)"
  using nz by (simp add: InvoicesSettledSince_def d si sinceScan_series [OF ks N f nz])

lemma drop_series_filter:
  assumes ad: "map AddIndex invs = map of_nat [1..<Suc (length invs)]" and N: "length invs < 2 ^ 64"
  shows "drop (unat since) invs = filter (\<lambda>i. since < AddIndex i) invs"
proof -
  have nth: "\<And>j. j < length invs \<Longrightarrow> unat (AddIndex (invs ! j)) = Suc j"
  proof -
    fix j assume j: "j < length invs"
    have "map AddIndex invs ! j = map of_nat [1..<Suc (length invs)] ! j" by (simp only: ad)
    then have "AddIndex (invs ! j) = of_nat (Suc j)" using j by (simp del: upt_Suc of_nat_Suc)
    moreover have "Suc j \<le> length invs" using j by simp
    then have "Suc j < 2 ^ 64" using N by (rule le_less_trans)
    then have "unat (of_nat (Suc j) :: 64 word) = Suc j" by (rule unat_of_nat64)
    ultimately show "unat (AddIndex (invs ! j)) = Suc j" by (simp only:)
  qed
  let ?k = "unat since"
  have "filter (\<lambda>i. since < AddIndex i) (take ?k invs) = []"
  proof -
    have "\<And>x. x \<in> set (take ?k invs) \<Longrightarrow> \<not> since < AddIndex x"
    proof -
      fix x assume "x \<in> set (take ?k invs)"
      then obtain j where j: "j < length (take ?k invs)" and x: "x = take ?k invs ! j"
        by (auto simp: in_set_conv_nth)
      then have "j < ?k" "j < length invs" by simp_all
      then have "unat (AddIndex x) \<le> ?k" using nth [of j] x by simp
      then show "\<not> since < AddIndex x" by (simp add: word_less_nat_alt)
    qed
    then show ?thesis by (simp add: filter_empty_conv)
  qed
  moreover have "filter (\<lambda>i. since < AddIndex i) (drop ?k invs) = drop ?k invs"
  proof -
    have "\<And>x. x \<in> set (drop ?k invs) \<Longrightarrow> since < AddIndex x"
    proof -
      fix x assume "x \<in> set (drop ?k invs)"
      then obtain j where j: "j < length (drop ?k invs)" and x: "x = drop ?k invs ! j"
        by (auto simp: in_set_conv_nth)
      then have "?k + j < length invs" by simp
      then have "unat (AddIndex x) = Suc (?k + j)" using nth [of "?k + j"] x by simp
      then show "since < AddIndex x" by (simp add: word_less_nat_alt)
    qed
    then show ?thesis by simp
  qed
  ultimately have "filter (\<lambda>i. since < AddIndex i) (take ?k invs @ drop ?k invs) = drop ?k invs"
    by (simp only: filter_append) simp
  then show ?thesis by simp
qed

text \<open>A reversed query whose offset lies more than one past the last add index finds no
  record at offset - 1 and returns nothing.\<close>

lemma QueryInvoices_reversed_past_end:
  assumes s: "addSeries d invs" and r: "Reversed q"
    and o: "length invs < unat (IndexOffset q) - 1"
  shows "\<exists>r. QueryInvoices d q = Inr r \<and> Invoices r = []"
proof -
  have "IndexOffset q \<noteq> 0" "IndexOffset q \<noteq> 1" using o by auto
  then have "queryInvoicesTx q d = Inr []"
    using r o by (simp add: queryInvoicesTx_series [OF s])
  then show ?thesis by (rule QueryInvoices_Inr)
qed

section \<open>Reversed queries past the last add index\<close>

text \<open>
  C6.  The claim fails on the code.  The ledger \<open>ledgerBC\<close> holds two invoices, added with
  the add indices 1 and 2.  The reversed query with offset 3 starts at add index 2 and
  returns both.  The reversed query with offset 4 is to start at add index 3 and walk
  descending, over the same two invoices; \<open>keyForIndex\<close> seeks the key 3, the cursor finds
  no key from there on, the loop does not run, and the query returns no invoice.
\<close>

theorem QueryInvoices_reversed_offset_past_last:
  "fst (AddInvoice exampleSum256 None invoiceB) = Inr 1
   \<and> fst (AddInvoice exampleSum256 ledgerB invoiceC) = Inr 2
   \<and> QueryInvoices ledgerBC
        \<lparr>IndexOffset = 3, NumMaxInvoices = 10, PendingOnly = False, Reversed = True\<rparr>
      = Inr \<lparr>Query = \<lparr>IndexOffset = 3, NumMaxInvoices = 10, PendingOnly = False, Reversed = True\<rparr>,
             Invoices = [invoiceB\<lparr>AddIndex := 1\<rparr>, invoiceC\<lparr>AddIndex := 2\<rparr>],
             FirstIndexOffset = 1, LastIndexOffset = 2\<rparr>
   \<and> QueryInvoices ledgerBC
        \<lparr>IndexOffset = 4, NumMaxInvoices = 10, PendingOnly = False, Reversed = True\<rparr>
      = Inr \<lparr>Query = \<lparr>IndexOffset = 4, NumMaxInvoices = 10, PendingOnly = False, Reversed = True\<rparr>,
             Invoices = [], FirstIndexOffset = 0, LastIndexOffset = 0\<rparr>"
proof -
  have n: "\<not> hashIndexed ledgerB 9"
    using AddInvoice_after(2) [OF invoiceB_facts(1,2) fresh_ledger(1,2), of exampleSum256 9]
    by (simp add: ledgerB_def)
  have a1: "fst (AddInvoice exampleSum256 None invoiceB) = Inr 1"
    using ledgerOf_AddInvoice(1) [OF ledgerOf_fresh invoiceB_facts(1,2) fresh_ledger(1)
        invoiceB_dates, of exampleSum256]
    by simp
  have a2: "fst (AddInvoice exampleSum256 ledgerB invoiceC) = Inr 2"
    using ledgerOf_AddInvoice(1) [OF ledgerOf_ledgerB invoiceC_facts(1,2) n invoiceC_facts(3,4),
        of exampleSum256]
    by simp
  note tx = queryInvoicesTx_series [OF addSeries_ledgerBC]
  have k: "\<And>q x. \<not> PendingOnly q \<Longrightarrow> keep q x" by (simp add: keep_def)
  have q3: "queryInvoicesTx
        \<lparr>IndexOffset = 3, NumMaxInvoices = 10, PendingOnly = False, Reversed = True\<rparr> ledgerBC
      = Inr [invoiceB\<lparr>AddIndex := 1\<rparr>, invoiceC\<lparr>AddIndex := 2\<rparr>]"
    by (simp add: tx page_def k)
  have q4: "queryInvoicesTx
        \<lparr>IndexOffset = 4, NumMaxInvoices = 10, PendingOnly = False, Reversed = True\<rparr> ledgerBC
      = Inr []"
    by (simp add: tx)
  show ?thesis
    by (simp add: a1 a2 QueryInvoices_def q3 q4)
qed

end
